theory Spec2Isabelle
  imports Main "HOL-Library.Multiset"
begin

section \<open>TT.Eval: the evaluation engine of EvalCore.h\<close>

text \<open>
  A shallow embedding of \<^verbatim>\<open>src/TT.Eval/EvalCore.h\<close>. A thrown
  \<^verbatim>\<open>ExecutionEngineException*\<close> is a value, an operation returns an outcome
  (normal return, a throw together with the state the throw leaves behind, an exception
  of the standard library that leaves the operation, or undefined behaviour of the C++
  abstract machine), and the while loops are recursive functions.
  Stacks are lists whose head is the top.

  The engine is modelled twice. In the first model a node is the tree it holds: that is
  what the operations compute with. In the second (section "Objects with identity") every
  node carries the address of its object: that is what the operations share. The last
  theorem of the theory shows that the first model is the second with the addresses
  dropped, wherever no object is shared.
\<close>

subsection \<open>Exceptions\<close>

datatype Level = Warning | Minor | Critical | Fatal

text \<open>The enumerators in declaration order: the comparison of two levels is the
  comparison of these numbers.\<close>

fun Level_index :: "Level \<Rightarrow> nat" where
  "Level_index Warning = 0"
| "Level_index Minor = 1"
| "Level_index Critical = 2"
| "Level_index Fatal = 3"

definition Level_gt :: "Level \<Rightarrow> Level \<Rightarrow> bool" where
  "Level_gt a b = (Level_index b < Level_index a)"

datatype ExecutionEngineException =
  Exception (BaseException: "ExecutionEngineException option") (what: string) (ErrorLevel: Level)

text \<open>
  The constructor \<^verbatim>\<open>ExecutionEngineException(base, what, level)\<close>. The member
  \<^verbatim>\<open>what_\<close> is initialised from the parameter; the \<^verbatim>\<open>switch\<close> appends the
  bracketed level name to the parameter, a local copy, so the member never holds it;
  a base's text is appended to the member.
\<close>

definition new_Exception ::
  "ExecutionEngineException option \<Rightarrow> string \<Rightarrow> Level \<Rightarrow> ExecutionEngineException" where
  "new_Exception base w level =
     Exception base (case base of None \<Rightarrow> w | Some b \<Rightarrow> w @ what b) level"

text \<open>
  \<^verbatim>\<open>throw new ExecutionEngineException(new ExecutionEngineException(nullptr, msg, level));\<close>
  The outer exception, the one thrown, is built with the default arguments of the
  constructor: the text "Execution engine exception" and the level Fatal.
\<close>

definition ThrowWraped :: "string \<Rightarrow> Level \<Rightarrow> ExecutionEngineException" where
  "ThrowWraped msg level =
     new_Exception (Some (new_Exception None msg level)) ''Execution engine exception'' Fatal"

subsection \<open>Tree model\<close>

datatype BranchBase = Value (Stored: string) | Branch (Branches: "BranchBase list")

fun Depth :: "BranchBase \<Rightarrow> nat" where
  "Depth (Value s) = 0"
| "Depth (Branch bs) = fold (\<lambda>i m. if Depth i > m then Depth i else m) bs 0 + 1"

fun Copy :: "BranchBase \<Rightarrow> BranchBase" where
  "Copy (Value s) = Value s"
| "Copy (Branch bs) = Branch (map Copy bs)"

definition is_branch :: "BranchBase \<Rightarrow> bool" where
  "is_branch x = (Depth x > 0)"

definition is_value :: "BranchBase \<Rightarrow> bool" where
  "is_value x = (Depth x = 0)"

definition IsEmpty :: "string \<Rightarrow> bool" where
  "IsEmpty s = (length s = 0 \<or> s = [])"

subsection \<open>Reading a number out of a leaf\<close>

text \<open>
  \<^verbatim>\<open>ReadAs<int>\<close> is \<^verbatim>\<open>int res; std::stringstream s(Stored); s >> res;\<close>.
  The extraction skips leading white space. When nothing is left, the stream's sentry
  fails and \<^verbatim>\<open>res\<close> is never written: the function returns an indeterminate value
  (\<open>None\<close>). Otherwise an optional sign and the decimal digits that follow are read;
  no digit gives 0, and a value outside the 32-bit range gives the nearest bound.
\<close>

definition isspace :: "char \<Rightarrow> bool" where
  "isspace c = (c \<in> set [CHR '' '', CHR 0x09, CHR 0x0A, CHR 0x0B, CHR 0x0C, CHR 0x0D])"

definition isdigit :: "char \<Rightarrow> bool" where
  "isdigit c = (48 \<le> (of_char c :: nat) \<and> (of_char c :: nat) \<le> 57)"

definition digit_val :: "char \<Rightarrow> int" where
  "digit_val c = int (of_char c) - 48"

definition decimal :: "string \<Rightarrow> int" where
  "decimal ds = foldl (\<lambda>acc c. 10 * acc + digit_val c) 0 ds"

definition INT_MAX :: int where
  "INT_MAX = 2147483647"

definition INT_MIN :: int where
  "INT_MIN = - 2147483648"

definition saturate :: "int \<Rightarrow> int" where
  "saturate v = (if v > INT_MAX then INT_MAX else if v < INT_MIN then INT_MIN else v)"

definition ReadAs_int :: "string \<Rightarrow> int option" where
  "ReadAs_int s =
     (case dropWhile isspace s of
        [] \<Rightarrow> None
      | c # r \<Rightarrow>
          (let neg = (c = CHR ''-'');
               u = (if c = CHR ''-'' \<or> c = CHR ''+'' then r else c # r);
               ds = takeWhile isdigit u
           in if ds = [] then Some 0
              else Some (saturate (if neg then - decimal ds else decimal ds))))"

text \<open>An \<^verbatim>\<open>int\<close> compared with, or used as, a \<^verbatim>\<open>size_t\<close> is converted to
  64 bits unsigned first.\<close>

definition size_t_of_int :: "int \<Rightarrow> nat" where
  "size_t_of_int c = nat (c mod 2 ^ 64)"

text \<open>A \<^verbatim>\<open>size_t\<close> assigned to an \<^verbatim>\<open>int\<close> keeps its low 32 bits, read in
  two's complement.\<close>

definition int_of_size_t :: "nat \<Rightarrow> int" where
  "int_of_size_t n = (let r = int (n mod 2 ^ 32) in if INT_MAX < r then r - 2 ^ 32 else r)"

subsection \<open>The evaluator's state\<close>

text \<open>The registered callbacks, by name; \<open>Fn_pop\<close> is the lambda registered as "#".\<close>

datatype Function =
    Fn_PackTop | Fn_PackTopSameLevel | Fn_UnpackTop | Fn_PackTopX
  | Fn_EmptyBranch | Fn_EmptyElement | Fn_CopyFromIndex | Fn_ExtractColumnPack
  | Fn_ExtractGroupedColumnPack | Fn_Copy | Fn_Duplicate | Fn_pop | Fn_DeepRemove
  | Fn_Undot | Fn_ConcatRow | Fn_SplitRow | Fn_Reverse

record Evaluator =
  Functions :: "(string \<times> Function) list"
  Data :: "BranchBase list"
  Log :: "string list"
  ApprovedLevel :: Level

text \<open>The exceptions of the standard library that an operation lets out: they are no
  \<^verbatim>\<open>ExecutionEngineException*\<close>, so no handler of the engine catches them.\<close>

datatype std_exception = out_of_range

datatype 's outcome =
    Returns 's
  | Throws ExecutionEngineException 's
  | Throws_std std_exception 's
  | Undefined

text \<open>\<^verbatim>\<open>std::set::insert\<close>: a name that is already registered keeps its entry.\<close>

definition Functions_insert ::
  "Function \<times> string \<Rightarrow> (string \<times> Function) list \<Rightarrow> (string \<times> Function) list" where
  "Functions_insert d fs =
     (if fst ` set fs \<inter> {snd d} = {} then fs @ [(snd d, fst d)] else fs)"

definition LoadDefault :: "Evaluator \<Rightarrow> Evaluator" where
  "LoadDefault ev = ev\<lparr>Functions := fold Functions_insert
     [(Fn_PackTop, ''^t''), (Fn_PackTopSameLevel, ''^''), (Fn_UnpackTop, ''^_t''),
      (Fn_PackTopX, ''^tc''),
      (Fn_EmptyBranch, ''|Eb''), (Fn_EmptyElement, ''|Ev''), (Fn_CopyFromIndex, ''|i''),
      (Fn_ExtractColumnPack, ''|id''), (Fn_CopyFromIndex, ''|[''),
      (Fn_ExtractColumnPack, ''|]''), (Fn_ExtractGroupedColumnPack, ''|]g''),
      (Fn_Copy, ''|''), (Fn_Duplicate, ''|c''),
      (Fn_pop, ''#''), (Fn_DeepRemove, ''#d''),
      (Fn_Undot, ''$''), (Fn_ConcatRow, ''$^''), (Fn_SplitRow, ''$_''),
      (Fn_Reverse, ''_'')] (Functions ev)\<rparr>"

text \<open>\<^verbatim>\<open>Evaluator() {}\<close> initialises no member: the containers start empty and
  \<^verbatim>\<open>ApprovedLevel\<close> holds whatever value it happens to hold, a parameter here.\<close>

definition new_Evaluator :: "Level \<Rightarrow> Evaluator" where
  "new_Evaluator lvl = \<lparr>Functions = [], Data = [], Log = [], ApprovedLevel = lvl\<rparr>"

definition push :: "BranchBase \<Rightarrow> Evaluator \<Rightarrow> Evaluator" where
  "push n ev = ev\<lparr>Data := n # Data ev\<rparr>"

definition pop :: "Evaluator \<Rightarrow> Evaluator" where
  "pop ev = ev\<lparr>Data := tl (Data ev)\<rparr>"

subsection \<open>Argument checks\<close>

text \<open>A check returns the exception it throws, or \<open>None\<close> when it returns.\<close>

definition RequireValue :: "BranchBase \<Rightarrow> ExecutionEngineException option" where
  "RequireValue br =
     (if \<not> is_value br then Some (ThrowWraped ''Branch as value argument'' Critical) else None)"

definition RequireBranch :: "BranchBase \<Rightarrow> ExecutionEngineException option" where
  "RequireBranch br =
     (if \<not> is_branch br then Some (ThrowWraped ''Value as branch argument'' Critical) else None)"

definition RequireInteger :: "BranchBase \<Rightarrow> ExecutionEngineException option" where
  "RequireInteger br =
     (case RequireValue br of
        Some e \<Rightarrow> Some e
      | None \<Rightarrow>
          if length (Stored br) > 8
          then Some (ThrowWraped ''Number larger than integer'' Critical)
          else if IsEmpty (Stored br)
          then Some (ThrowWraped ''Passing empty as number'' Critical)
          else if \<not> list_all isdigit (Stored br)
          then Some (ThrowWraped ''Not a number passed as an integer'' Critical)
          else None)"

definition RequireTop :: "int \<Rightarrow> Evaluator \<Rightarrow> ExecutionEngineException option" where
  "RequireTop sz ev =
     (if length (Data ev) < size_t_of_int sz
      then Some (ThrowWraped ''Required argument, but not passed'' Critical) else None)"

definition RequireValueTop :: "Evaluator \<Rightarrow> ExecutionEngineException option" where
  "RequireValueTop ev =
     (case RequireTop 1 ev of Some e \<Rightarrow> Some e | None \<Rightarrow> RequireValue (hd (Data ev)))"

definition RequireIntegerTop :: "Evaluator \<Rightarrow> ExecutionEngineException option" where
  "RequireIntegerTop ev =
     (case RequireTop 1 ev of Some e \<Rightarrow> Some e | None \<Rightarrow> RequireInteger (hd (Data ev)))"

definition RequireBranchTop :: "Evaluator \<Rightarrow> ExecutionEngineException option" where
  "RequireBranchTop ev =
     (case RequireTop 1 ev of Some e \<Rightarrow> Some e | None \<Rightarrow> RequireBranch (hd (Data ev)))"

subsection \<open>Stack operations\<close>

text \<open>
  The constructor \<^verbatim>\<open>Branch(stack, taken)\<close> moves the top \<open>taken\<close> nodes of the
  stack into the new Branch, the deepest of them first. It reads \<^verbatim>\<open>stack.top()\<close>
  \<open>taken\<close> times without a check: with fewer nodes the behaviour is undefined (\<open>None\<close>).
\<close>

definition Branch_taken :: "BranchBase list \<Rightarrow> int \<Rightarrow> (BranchBase \<times> BranchBase list) option" where
  "Branch_taken stack taken =
     (if taken < 0 \<or> length stack < nat taken then None
      else Some (Branch (rev (take (nat taken) stack)), drop (nat taken) stack))"

definition PackTop :: "Evaluator \<Rightarrow> Evaluator outcome" where
  "PackTop ev =
     (if length (Data ev) = 0
      then Throws (ThrowWraped ''Required argument, but not passed'' Critical) ev
      else case Branch_taken (Data ev) 1 of
             None \<Rightarrow> Undefined
           | Some (br, rest) \<Rightarrow> Returns (push br (ev\<lparr>Data := rest\<rparr>)))"

text \<open>\<^verbatim>\<open>Branch::Unpack\<close>: every child, in order, is copied and pushed.\<close>

definition Unpack :: "BranchBase \<Rightarrow> BranchBase list \<Rightarrow> BranchBase list" where
  "Unpack br stack = fold (\<lambda>i s. Copy i # s) (Branches br) stack"

definition UnpackTop :: "Evaluator \<Rightarrow> Evaluator outcome" where
  "UnpackTop ev =
     (case RequireBranchTop ev of
        Some e \<Rightarrow> Throws e ev
      | None \<Rightarrow>
          (let br = hd (Data ev); ev1 = pop ev
           in Returns (ev1\<lparr>Data := Unpack br (Data ev1)\<rparr>)))"

text \<open>The loop of \<^verbatim>\<open>PackTopSameLevel\<close>: the collected children and the stack.\<close>

fun PackTopSameLevel_loop ::
  "nat \<Rightarrow> BranchBase list \<Rightarrow> BranchBase list \<Rightarrow> BranchBase list \<times> BranchBase list" where
  "PackTopSameLevel_loop d br [] = (br, [])"
| "PackTopSameLevel_loop d br (t # stack) =
     (if Depth t = d then PackTopSameLevel_loop d (br @ [t]) stack else (br, t # stack))"

text \<open>\<^verbatim>\<open>int d = eval->Data.top()->Depth();\<close> comes before any check: on an empty
  stack the behaviour is undefined.\<close>

definition PackTopSameLevel :: "Evaluator \<Rightarrow> Evaluator outcome" where
  "PackTopSameLevel ev =
     (case Data ev of
        [] \<Rightarrow> Undefined
      | t # _ \<Rightarrow>
          (case PackTopSameLevel_loop (Depth t) [] (Data ev) of
             (br, stack) \<Rightarrow> Returns (push (Branch br) (ev\<lparr>Data := stack\<rparr>))))"

definition PackTopX :: "Evaluator \<Rightarrow> Evaluator outcome" where
  "PackTopX ev =
     (case RequireValueTop ev of
        Some e \<Rightarrow> Throws e ev
      | None \<Rightarrow>
          (case ReadAs_int (Stored (hd (Data ev))) of
             None \<Rightarrow> Undefined
           | Some c \<Rightarrow>
               (let ev1 = pop ev
                in if length (Data ev1) < size_t_of_int c
                   then Throws (ThrowWraped ''Too few arguments to unpack'' Critical) ev1
                   else case Branch_taken (Data ev1) c of
                          None \<Rightarrow> Undefined
                        | Some (br, rest) \<Rightarrow> Returns (push br (ev1\<lparr>Data := rest\<rparr>)))))"

definition EmptyBranch :: "Evaluator \<Rightarrow> Evaluator outcome" where
  "EmptyBranch ev = Returns (push (Branch []) ev)"

definition EmptyElement :: "Evaluator \<Rightarrow> Evaluator outcome" where
  "EmptyElement ev = Returns (push (Value []) ev)"

text \<open>\<^verbatim>\<open>Branches[c]\<close> is \<^verbatim>\<open>std::vector::operator[]\<close>: no bounds check, an
  index past the end is undefined behaviour.\<close>

definition CopyFromIndex :: "Evaluator \<Rightarrow> Evaluator outcome" where
  "CopyFromIndex ev =
     (case RequireValueTop ev of
        Some e \<Rightarrow> Throws e ev
      | None \<Rightarrow>
          (case ReadAs_int (Stored (hd (Data ev))) of
             None \<Rightarrow> Undefined
           | Some c \<Rightarrow>
               (let ev1 = pop ev
                in case RequireBranchTop ev1 of
                     Some e \<Rightarrow> Throws e ev1
                   | None \<Rightarrow>
                       (let bs = Branches (hd (Data ev1))
                        in if size_t_of_int c < length bs
                           then Returns (push (Copy (bs ! size_t_of_int c)) ev1)
                           else Undefined))))"

definition Undot :: "Evaluator \<Rightarrow> Evaluator outcome" where
  "Undot ev =
     (case RequireValueTop ev of
        Some e \<Rightarrow> Throws e ev
      | None \<Rightarrow>
          (let v = Stored (hd (Data ev))
           in Returns (ev\<lparr>Data :=
                Value (case v of [] \<Rightarrow> [] | c # r \<Rightarrow> if c = CHR ''.'' then r else v)
                  # tl (Data ev)\<rparr>)))"

text \<open>\<^verbatim>\<open>Evaluator::Copy\<close> (the tree's \<^verbatim>\<open>Copy\<close> is \<^const>\<open>Copy\<close>).\<close>

definition Evaluator_Copy :: "Evaluator \<Rightarrow> Evaluator outcome" where
  "Evaluator_Copy ev =
     (case RequireTop 1 ev of
        Some e \<Rightarrow> Throws e ev
      | None \<Rightarrow> Returns (push (Copy (hd (Data ev))) ev))"

text \<open>\<^verbatim>\<open>for (int i = 1; i < c; i++) eval->Data.push(eval->Data.top()->Copy());\<close>
  reads the top without a check.\<close>

function Duplicate_loop :: "int \<Rightarrow> int \<Rightarrow> BranchBase list \<Rightarrow> BranchBase list option" where
  "Duplicate_loop i c stack =
     (if i < c
      then (case stack of [] \<Rightarrow> None | t # _ \<Rightarrow> Duplicate_loop (i + 1) c (Copy t # stack))
      else Some stack)"
  by pat_completeness auto
termination
  by (relation "measure (\<lambda>(i, c, stack). nat (c - i))") auto

definition Duplicate :: "Evaluator \<Rightarrow> Evaluator outcome" where
  "Duplicate ev =
     (case RequireIntegerTop ev of
        Some e \<Rightarrow> Throws e ev
      | None \<Rightarrow>
          (case ReadAs_int (Stored (hd (Data ev))) of
             None \<Rightarrow> Undefined
           | Some c \<Rightarrow>
               (case Duplicate_loop 1 c (Data (pop ev)) of
                  None \<Rightarrow> Undefined
                | Some stack \<Rightarrow> Returns (ev\<lparr>Data := stack\<rparr>))))"

text \<open>The lambda registered as "#": \<^verbatim>\<open>eval->Data.pop();\<close> and nothing else.
  \<^verbatim>\<open>std::stack::pop\<close> on an empty stack is undefined behaviour.\<close>

definition lambda_pop :: "Evaluator \<Rightarrow> Evaluator outcome" where
  "lambda_pop ev = (case Data ev of [] \<Rightarrow> Undefined | _ # rest \<Rightarrow> Returns (ev\<lparr>Data := rest\<rparr>))"

text \<open>\<^verbatim>\<open>for (i = 0; i < c; i++) { dst.push(src.top()); src.pop(); }\<close>\<close>

fun move_top :: "nat \<Rightarrow> 'a list \<Rightarrow> 'a list \<Rightarrow> ('a list \<times> 'a list) option" where
  "move_top 0 src dst = Some (src, dst)"
| "move_top (Suc n) [] dst = None"
| "move_top (Suc n) (t # src) dst = move_top n src (t # dst)"

definition DeepRemove :: "Evaluator \<Rightarrow> Evaluator outcome" where
  "DeepRemove ev =
     (case RequireIntegerTop ev of
        Some e \<Rightarrow> Throws e ev
      | None \<Rightarrow>
          (case ReadAs_int (Stored (hd (Data ev))) of
             None \<Rightarrow> Undefined
           | Some c \<Rightarrow>
               (let ev1 = pop ev
                in case RequireTop (c + 1) ev1 of
                     Some e \<Rightarrow> Throws e ev1
                   | None \<Rightarrow>
                       (case move_top (nat c) (Data ev1) [] of
                          None \<Rightarrow> Undefined
                        | Some ([], tmp) \<Rightarrow> Undefined
                        | Some (_ # stack, tmp) \<Rightarrow>
                            (case move_top (nat c) tmp stack of
                               None \<Rightarrow> Undefined
                             | Some (_, stack') \<Rightarrow> Returns (ev1\<lparr>Data := stack'\<rparr>))))))"

text \<open>\<^verbatim>\<open>Reverse\<close> swaps in place, from both ends towards the middle.\<close>

function Reverse_loop :: "nat \<Rightarrow> 'a list \<Rightarrow> 'a list" where
  "Reverse_loop i v =
     (if i < length v div 2
      then Reverse_loop (Suc i) (v[i := v ! (length v - 1 - i), length v - 1 - i := v ! i])
      else v)"
  by pat_completeness auto
termination
  by (relation "measure (\<lambda>(i, v). length v div 2 - i)") auto

definition Reverse :: "Evaluator \<Rightarrow> Evaluator outcome" where
  "Reverse ev =
     (case RequireTop 1 ev of
        Some e \<Rightarrow> Throws e ev
      | None \<Rightarrow>
          (let t = hd (Data ev)
           in Returns (ev\<lparr>Data :=
                (if is_value t then Value (Reverse_loop 0 (Stored t))
                 else Branch (Reverse_loop 0 (Branches t))) # tl (Data ev)\<rparr>)))"

subsection \<open>Column extraction\<close>

text \<open>A bound on the iterations a subtree costs the traversal (used for termination
  only).\<close>

fun work :: "BranchBase \<Rightarrow> nat" where
  "work (Value s) = 0"
| "work (Branch bs) = Suc (sum_list (map (\<lambda>b. Suc (work b)) bs))"

definition frame_work :: "BranchBase \<times> nat \<Rightarrow> nat" where
  "frame_work f = Suc (sum_list (map (\<lambda>b. Suc (work b)) (drop (snd f) (Branches (fst f)))))"

text \<open>
  The loop of \<^verbatim>\<open>ExtractColumnPack\<close>: \<open>br\<close> is the stack of open Branches, \<open>cp\<close>
  the stack of cursors into them, \<open>nbranch\<close> the children collected so far. The two
  stacks are popped together; \<open>None\<close> is a read of an empty cursor stack.
\<close>

function ExtractColumnPack_loop ::
  "int \<Rightarrow> int \<Rightarrow> BranchBase list \<Rightarrow> nat list \<Rightarrow> BranchBase list \<Rightarrow> BranchBase list option" where
  "ExtractColumnPack_loop index depth [] cp nbranch = Some nbranch"
| "ExtractColumnPack_loop index depth (b # br) [] nbranch = None"
| "ExtractColumnPack_loop index depth (b # br) (c # cp) nbranch =
     (if c \<ge> length (Branches b)
      then ExtractColumnPack_loop index depth br cp nbranch
      else if length (b # br) = size_t_of_int depth
      then ExtractColumnPack_loop index depth br cp
             (if size_t_of_int index < length (Branches b)
              then nbranch @ [Copy (Branches b ! size_t_of_int index)] else nbranch)
      else if is_branch (Branches b ! c)
      then ExtractColumnPack_loop index depth (Branches b ! c # b # br) (0 # Suc c # cp) nbranch
      else ExtractColumnPack_loop index depth (b # br) (Suc c # cp) nbranch)"
  by pat_completeness auto
termination
proof -
  have opened: "work x = frame_work (x, 0)" if "is_branch x" for x
    using that by (cases x) (simp_all add: is_branch_def frame_work_def)
  have advanced: "frame_work (b, c) = Suc (work (Branches b ! c)) + frame_work (b, Suc c)"
    if "c < length (Branches b)" for b c
    using that by (simp add: frame_work_def flip: Cons_nth_drop_Suc)
  show ?thesis
    by (relation "measure (\<lambda>(index, depth, br, cp, nbranch). sum_list (map frame_work (zip br cp)))")
       (auto simp: advanced opened, simp_all add: frame_work_def)
qed

definition ExtractColumnPack :: "Evaluator \<Rightarrow> Evaluator outcome" where
  "ExtractColumnPack ev =
     (case RequireValueTop ev of
        Some e \<Rightarrow> Throws e ev
      | None \<Rightarrow>
          (case ReadAs_int (Stored (hd (Data ev))) of
             None \<Rightarrow> Undefined
           | Some index \<Rightarrow>
               (let ev1 = pop ev
                in case RequireValueTop ev1 of
                     Some e \<Rightarrow> Throws e ev1
                   | None \<Rightarrow>
                       (case ReadAs_int (Stored (hd (Data ev1))) of
                          None \<Rightarrow> Undefined
                        | Some depth \<Rightarrow>
                            (let ev2 = pop ev1
                             in if depth < 1
                                then Throws (ThrowWraped ''Cannot extract from zero depth'' Critical) ev2
                                else case RequireBranchTop ev2 of
                                       Some e \<Rightarrow> Throws e ev2
                                     | None \<Rightarrow>
                                         (case ExtractColumnPack_loop index depth [hd (Data ev2)] [0] [] of
                                            None \<Rightarrow> Undefined
                                          | Some nbranch \<Rightarrow> Returns (push (Branch nbranch) ev2)))))))"

text \<open>
  \<^verbatim>\<open>ExtractGroupedColumnPack\<close> builds the output tree through pointers into it:
  \<open>nbr\<close> is the stack of those pointers, here the path (child positions from the root)
  of each output Branch.
\<close>

fun node_at :: "nat list \<Rightarrow> BranchBase \<Rightarrow> BranchBase" where
  "node_at [] t = t"
| "node_at (i # p) t = node_at p (Branches t ! i)"

fun push_back_at :: "nat list \<Rightarrow> BranchBase \<Rightarrow> BranchBase \<Rightarrow> BranchBase" where
  "push_back_at [] x t = Branch (Branches t @ [x])"
| "push_back_at (i # p) x t = Branch ((Branches t)[i := push_back_at p x (Branches t ! i)])"

function ExtractGroupedColumnPack_loop ::
  "int \<Rightarrow> int \<Rightarrow> BranchBase list \<Rightarrow> nat list \<Rightarrow> nat list list \<Rightarrow> BranchBase \<Rightarrow> BranchBase option" where
  "ExtractGroupedColumnPack_loop index depth [] cp nbr nbranch = Some nbranch"
| "ExtractGroupedColumnPack_loop index depth (b # br) [] nbr nbranch = None"
| "ExtractGroupedColumnPack_loop index depth (b # br) (c # cp) [] nbranch = None"
| "ExtractGroupedColumnPack_loop index depth (b # br) (c # cp) (p # nbr) nbranch =
     (if c \<ge> length (Branches b)
      then ExtractGroupedColumnPack_loop index depth br cp nbr nbranch
      else if length (b # br) = size_t_of_int depth
      then ExtractGroupedColumnPack_loop index depth br cp nbr
             (if size_t_of_int index < length (Branches b)
              then push_back_at p (Copy (Branches b ! size_t_of_int index)) nbranch else nbranch)
      else if is_branch (Branches b ! c)
      then ExtractGroupedColumnPack_loop index depth (Branches b ! c # b # br) (0 # Suc c # cp)
             ((p @ [length (Branches (node_at p nbranch))]) # p # nbr)
             (push_back_at p (Branch []) nbranch)
      else ExtractGroupedColumnPack_loop index depth (b # br) (Suc c # cp) (p # nbr) nbranch)"
  by pat_completeness auto
termination
proof -
  have opened: "work x = frame_work (x, 0)" if "is_branch x" for x
    using that by (cases x) (simp_all add: is_branch_def frame_work_def)
  have advanced: "frame_work (b, c) = Suc (work (Branches b ! c)) + frame_work (b, Suc c)"
    if "c < length (Branches b)" for b c
    using that by (simp add: frame_work_def flip: Cons_nth_drop_Suc)
  show ?thesis
    by (relation "measure (\<lambda>(index, depth, br, cp, nbr, nbranch). sum_list (map frame_work (zip br cp)))")
       (auto simp: advanced opened, simp_all add: frame_work_def)
qed

definition ExtractGroupedColumnPack :: "Evaluator \<Rightarrow> Evaluator outcome" where
  "ExtractGroupedColumnPack ev =
     (case RequireValueTop ev of
        Some e \<Rightarrow> Throws e ev
      | None \<Rightarrow>
          (case ReadAs_int (Stored (hd (Data ev))) of
             None \<Rightarrow> Undefined
           | Some index \<Rightarrow>
               (let ev1 = pop ev
                in case RequireValueTop ev1 of
                     Some e \<Rightarrow> Throws e ev1
                   | None \<Rightarrow>
                       (case ReadAs_int (Stored (hd (Data ev1))) of
                          None \<Rightarrow> Undefined
                        | Some depth \<Rightarrow>
                            (let ev2 = pop ev1
                             in if depth < 1
                                then Throws (ThrowWraped ''Cannot extract from zero depth'' Critical) ev2
                                else case RequireBranchTop ev2 of
                                       Some e \<Rightarrow> Throws e ev2
                                     | None \<Rightarrow>
                                         (case ExtractGroupedColumnPack_loop index depth
                                                 [hd (Data ev2)] [0] [[]] (Branch []) of
                                            None \<Rightarrow> Undefined
                                          | Some nbranch \<Rightarrow> Returns (push nbranch ev2)))))))"

subsection \<open>Rows\<close>

text \<open>
  \<^verbatim>\<open>std::string::find(str, pos)\<close>: the first position from \<open>pos\<close> on where
  \<open>str\<close> stands, \<open>None\<close> for no position. The member function returns a
  \<^verbatim>\<open>size_t\<close>, \<^verbatim>\<open>npos\<close> for no position.
\<close>

function string_find :: "string \<Rightarrow> string \<Rightarrow> nat \<Rightarrow> nat option" where
  "string_find s str pos =
     (if length s < pos + length str then None
      else if take (length str) (drop pos s) = str then Some pos
      else string_find s str (Suc pos))"
  by pat_completeness auto
termination
  by (relation "measure (\<lambda>(s, str, pos). Suc (length s) - pos)") auto

definition npos :: nat where
  "npos = 2 ^ 64 - 1"

text \<open>\<^verbatim>\<open>substr(pos, n)\<close> throws \<^verbatim>\<open>std::out_of_range\<close> (\<open>None\<close>) when
  \<open>pos\<close> is past the end, and is \<open>take n (drop pos s)\<close> otherwise.\<close>

definition substr :: "string \<Rightarrow> nat \<Rightarrow> nat \<Rightarrow> string option" where
  "substr s pos n = (if length s < pos then None else Some (take n (drop pos s)))"

text \<open>
  \<^verbatim>\<open>np = value.find(split, p); if (np == std::string::npos) np = value.size();\<close>
  with \<^verbatim>\<open>int p\<close> and \<^verbatim>\<open>int np\<close>: \<open>p\<close> is converted to \<^verbatim>\<open>size_t\<close> for
  the call, the result is cut to an \<^verbatim>\<open>int\<close>, which is converted back to
  \<^verbatim>\<open>size_t\<close> for the comparison, and the size is cut to an \<^verbatim>\<open>int\<close> too.
  (The size of a \<^verbatim>\<open>std::string\<close> fits a \<^verbatim>\<open>size_t\<close>: it is the length
  of the text.)
\<close>

definition find_or_size :: "string \<Rightarrow> string \<Rightarrow> int \<Rightarrow> int" where
  "find_or_size s str p =
     (let np = int_of_size_t (case string_find s str (size_t_of_int p) of
                                None \<Rightarrow> npos | Some k \<Rightarrow> k)
      in if size_t_of_int np = npos then int_of_size_t (length s) else np)"

text \<open>
  \<^verbatim>\<open>r->Branches.push_back(std::make_shared<Value>(value.substr(p, np - p)));\<close>
  The difference is taken in \<^verbatim>\<open>int\<close>, where an overflow is undefined, and both
  arguments are converted to \<^verbatim>\<open>size_t\<close>.
\<close>

definition push_back_substr ::
  "string \<Rightarrow> int \<Rightarrow> int \<Rightarrow> BranchBase list \<Rightarrow> BranchBase list outcome" where
  "push_back_substr v p np r =
     (if np - p < INT_MIN \<or> INT_MAX < np - p then Undefined
      else case substr v (size_t_of_int p) (size_t_of_int (np - p)) of
             None \<Rightarrow> Throws_std out_of_range r
           | Some seg \<Rightarrow> Returns (r @ [Value seg]))"

text \<open>
  The while loop of \<^verbatim>\<open>SplitRow\<close> and the \<^verbatim>\<open>push_back\<close> after it, on the
  positions \<^verbatim>\<open>int p\<close> and \<^verbatim>\<open>int np\<close>; the test
  \<^verbatim>\<open>np != value.size()\<close> converts \<open>np\<close> to \<^verbatim>\<open>size_t\<close>, and
  \<^verbatim>\<open>p = np + split.size()\<close> adds in \<^verbatim>\<open>size_t\<close> and cuts the sum to an
  \<^verbatim>\<open>int\<close>. The loop makes no progress with an empty separator, so it is a partial
  function: \<open>None\<close> is a loop that does not end.
\<close>

partial_function (option) SplitRow_loop ::
  "string \<Rightarrow> string \<Rightarrow> int \<Rightarrow> int \<Rightarrow> BranchBase list \<Rightarrow> BranchBase list outcome option" where
  "SplitRow_loop v split p np r =
     (if size_t_of_int np \<noteq> length v
      then (case push_back_substr v p np r of
              Returns r1 \<Rightarrow>
                (let p1 = int_of_size_t ((size_t_of_int np + length split) mod 2 ^ 64)
                 in SplitRow_loop v split p1 (find_or_size v split p1) r1)
            | Throws e r1 \<Rightarrow> Some (Throws e r1)
            | Throws_std x r1 \<Rightarrow> Some (Throws_std x r1)
            | Undefined \<Rightarrow> Some Undefined)
      else Some (push_back_substr v p np r))"

declare SplitRow_loop.simps [code]

text \<open>Both leaves are popped before the loop starts, and the Branch \<open>r\<close> is pushed
  after it: an exception that leaves the loop leaves the stack without the two leaves.\<close>

definition SplitRow :: "Evaluator \<Rightarrow> Evaluator outcome" where
  "SplitRow ev =
     (case RequireValueTop ev of
        Some e \<Rightarrow> Throws e ev
      | None \<Rightarrow>
          (let split = Stored (hd (Data ev))
           in if length split = 0
              then Throws (ThrowWraped ''Empty passed as split'' Critical) ev
              else (let ev1 = pop ev
                    in case RequireValueTop ev1 of
                         Some e \<Rightarrow> Throws e ev1
                       | None \<Rightarrow>
                           (let v = Stored (hd (Data ev1)); ev2 = pop ev1
                            in case SplitRow_loop v split 0 (find_or_size v split 0) [] of
                                 None \<Rightarrow> Undefined
                               | Some (Returns r) \<Rightarrow> Returns (push (Branch r) ev2)
                               | Some (Throws e r) \<Rightarrow> Throws e ev2
                               | Some (Throws_std x r) \<Rightarrow> Throws_std x ev2
                               | Some Undefined \<Rightarrow> Undefined))))"

text \<open>The loop of \<^verbatim>\<open>ConcatRow\<close>: \<open>f\<close> is the flag "a leaf has been written".\<close>

fun ConcatRow_loop :: "string \<Rightarrow> BranchBase list \<Rightarrow> bool \<Rightarrow> string \<Rightarrow> string" where
  "ConcatRow_loop space [] f str = str"
| "ConcatRow_loop space (i # bs) f str =
     (if Depth i = 0
      then ConcatRow_loop space bs True ((if \<not> f then str else str @ space) @ Stored i)
      else ConcatRow_loop space bs f str)"

definition ConcatRow :: "Evaluator \<Rightarrow> Evaluator outcome" where
  "ConcatRow ev =
     (case RequireValueTop ev of
        Some e \<Rightarrow> Throws e ev
      | None \<Rightarrow>
          (let space = Stored (hd (Data ev)); ev1 = pop ev
           in case RequireBranchTop ev1 of
                Some e \<Rightarrow> Throws e ev1
              | None \<Rightarrow>
                  (let br = hd (Data ev1); ev2 = pop ev1
                   in Returns (push (Value (ConcatRow_loop space (Branches br) False [])) ev2))))"

subsection \<open>Dispatch\<close>

fun Func :: "Function \<Rightarrow> Evaluator \<Rightarrow> Evaluator outcome" where
  "Func Fn_PackTop = PackTop"
| "Func Fn_PackTopSameLevel = PackTopSameLevel"
| "Func Fn_UnpackTop = UnpackTop"
| "Func Fn_PackTopX = PackTopX"
| "Func Fn_EmptyBranch = EmptyBranch"
| "Func Fn_EmptyElement = EmptyElement"
| "Func Fn_CopyFromIndex = CopyFromIndex"
| "Func Fn_ExtractColumnPack = ExtractColumnPack"
| "Func Fn_ExtractGroupedColumnPack = ExtractGroupedColumnPack"
| "Func Fn_Copy = Evaluator_Copy"
| "Func Fn_Duplicate = Duplicate"
| "Func Fn_pop = lambda_pop"
| "Func Fn_DeepRemove = DeepRemove"
| "Func Fn_Undot = Undot"
| "Func Fn_ConcatRow = ConcatRow"
| "Func Fn_SplitRow = SplitRow"
| "Func Fn_Reverse = Reverse"

text \<open>The text \<^verbatim>\<open>exception->what() << "\nCaused during invoking:" << com\<close>.\<close>

definition caused_during :: "ExecutionEngineException \<Rightarrow> string \<Rightarrow> string" where
  "caused_during e com = what e @ [CHR 0x0A] @ ''Caused during invoking:'' @ com"

definition EvalCom :: "string \<Rightarrow> bool \<Rightarrow> bool \<Rightarrow> Evaluator \<Rightarrow> Evaluator outcome" where
  "EvalCom com log catch_localy ev =
     (case (if length com < 1 then Returns ev
            else case map_of (Functions ev) com of
                   None \<Rightarrow> Returns (push (Value com) ev)
                 | Some f \<Rightarrow> Func f ev) of
        Returns ev' \<Rightarrow> Returns ev'
      | Undefined \<Rightarrow> Undefined
      | Throws_std x ev' \<Rightarrow> Throws_std x ev'
      | Throws e ev' \<Rightarrow>
          if \<not> catch_localy then Throws e ev'
          else (let ev'' = (if log then ev'\<lparr>Log := caused_during e com # Log ev'\<rparr> else ev')
                in if Level_gt (ErrorLevel e) (ApprovedLevel ev'') then Throws e ev''
                   else Returns ev''))"

text \<open>The trace of \<^verbatim>\<open>EvalComs\<close>:
  \<^verbatim>\<open>for (int j = 0; j < i + 1; j++) str << "\t" << coms[i] << "\n";\<close>\<close>

definition com_trace :: "string list \<Rightarrow> nat \<Rightarrow> string" where
  "com_trace coms i = concat (map (\<lambda>j. [CHR 0x09] @ coms ! i @ [CHR 0x0A]) [0..<i + 1])"

function EvalComs_loop :: "string list \<Rightarrow> nat \<Rightarrow> Evaluator \<Rightarrow> Evaluator outcome" where
  "EvalComs_loop coms i ev =
     (if i < length coms
      then (case EvalCom (coms ! i) False False ev of
              Returns ev' \<Rightarrow> EvalComs_loop coms (Suc i) ev'
            | Undefined \<Rightarrow> Undefined
            | Throws_std x ev' \<Rightarrow> Throws_std x ev'
            | Throws e ev' \<Rightarrow>
                (let ev'' = ev'\<lparr>Log := (caused_during e (coms ! i) @ [CHR 0x0A] @ ''Com trace:''
                                          @ com_trace coms i) # Log ev'\<rparr>
                 in if Level_gt (ErrorLevel e) (ApprovedLevel ev'') then Throws e ev''
                    else EvalComs_loop coms (Suc i) ev''))
      else Returns ev)"
  by pat_completeness auto
termination
  by (relation "measure (\<lambda>(coms, i, ev). length coms - i)") auto

definition EvalComs :: "string list \<Rightarrow> Evaluator \<Rightarrow> Evaluator outcome" where
  "EvalComs coms ev = EvalComs_loop coms 0 ev"

subsection \<open>The structural validator\<close>

text \<open>
  The state of \<^verbatim>\<open>Require\<close> is the stack \<open>l\<close> of open Branches and the stack
  \<open>c_p\<close> of cursors. \<^verbatim>\<open>request[index]\<close> at \<open>index = size\<close> is the terminating
  zero character.
\<close>

type_synonym cursor_state = "BranchBase list \<times> nat list"

definition request_at :: "string \<Rightarrow> nat \<Rightarrow> char" where
  "request_at request index = (if index < length request then request ! index else CHR 0x00)"

text \<open>\<^verbatim>\<open>l.pop(); c_p.pop();\<close>\<close>

definition Require_pop :: "cursor_state \<Rightarrow> cursor_state outcome" where
  "Require_pop s = (case s of (_ # l, _ # c_p) \<Rightarrow> Returns (l, c_p) | _ \<Rightarrow> Undefined)"

text \<open>\<^verbatim>\<open>l.top()->Branches[c_p.top()]\<close>: undefined on an empty stack and past the
  last child.\<close>

definition Require_current :: "cursor_state \<Rightarrow> BranchBase option" where
  "Require_current s =
     (case s of
        (b # l, c # c_p) \<Rightarrow> if c < length (Branches b) then Some (Branches b ! c) else None
      | _ \<Rightarrow> None)"

text \<open>\<^verbatim>\<open>RequireBranch(cur); l.push(as_branch(cur)); c_p.top()++; c_p.push(0);\<close>\<close>

definition Require_b :: "cursor_state \<Rightarrow> cursor_state outcome" where
  "Require_b s =
     (case Require_current s of
        None \<Rightarrow> Undefined
      | Some n \<Rightarrow>
          (case RequireBranch n of
             Some e \<Rightarrow> Throws e s
           | None \<Rightarrow>
               (case s of
                  (l, c # c_p) \<Rightarrow> Returns (n # l, 0 # Suc c # c_p)
                | _ \<Rightarrow> Undefined)))"

text \<open>\<^verbatim>\<open>check(cur); c_p.top()++;\<close> for the opcodes v, i and e.\<close>

definition Require_advance ::
  "(BranchBase \<Rightarrow> ExecutionEngineException option) \<Rightarrow> cursor_state \<Rightarrow> cursor_state outcome" where
  "Require_advance check s =
     (case Require_current s of
        None \<Rightarrow> Undefined
      | Some n \<Rightarrow>
          (case check n of
             Some e \<Rightarrow> Throws e s
           | None \<Rightarrow>
               (case s of
                  (l, c # c_p) \<Rightarrow> Returns (l, Suc c # c_p)
                | _ \<Rightarrow> Undefined)))"

text \<open>One turn of the do-while loop: the \<^verbatim>\<open>if / else if\<close> on the character,
  then the \<^verbatim>\<open>switch\<close> on the same character.\<close>

definition Require_step :: "char \<Rightarrow> cursor_state \<Rightarrow> cursor_state outcome" where
  "Require_step ch s =
     (case (if ch = CHR ''.'' then Require_pop s
            else if ch = CHR ''b'' then Require_b s
            else Returns s) of
        Returns s1 \<Rightarrow>
          (if ch = CHR ''.'' then Require_pop s1
           else if ch = CHR ''b'' then Require_b s1
           else if ch = CHR ''v'' then Require_advance RequireValue s1
           else if ch = CHR ''i'' then Require_advance RequireInteger s1
           else if ch = CHR ''e'' then Require_advance (\<lambda>n. None) s1
           else Throws (ThrowWraped ''Require syntax error'' Critical) s1)
      | Throws e s1 \<Rightarrow> Throws e s1
      | Throws_std x s1 \<Rightarrow> Throws_std x s1
      | Undefined \<Rightarrow> Undefined)"

function Require_loop :: "string \<Rightarrow> nat \<Rightarrow> cursor_state \<Rightarrow> cursor_state outcome" where
  "Require_loop request index s =
     (case Require_step (request_at request index) s of
        Returns s1 \<Rightarrow>
          if Suc index < length request then Require_loop request (Suc index) s1
          else Returns s1
      | Throws e s1 \<Rightarrow> Throws e s1
      | Throws_std x s1 \<Rightarrow> Throws_std x s1
      | Undefined \<Rightarrow> Undefined)"
  by pat_completeness auto
termination
  by (relation "measure (\<lambda>(request, index, s). length request - index)") auto

text \<open>\<^verbatim>\<open>l.push(as_branch(br)); int index = 0;\<close> and then the loop: nothing is pushed
  on \<open>c_p\<close> before the first turn.\<close>

definition Require :: "string \<Rightarrow> BranchBase \<Rightarrow> cursor_state outcome" where
  "Require request br =
     (case RequireBranch br of
        Some e \<Rightarrow> Throws e ([], [])
      | None \<Rightarrow> Require_loop request 0 ([br], []))"

section \<open>Objects with identity\<close>

text \<open>
  The stack holds \<^verbatim>\<open>shared_ptr\<close>s, and two of them may point to one object. To
  state what is shared, every object is written with its address: a tree of objects is
  the store unfolded along the pointers, an object that two pointers reach shows as two
  occurrences of one address, a write through a pointer rewrites every occurrence of
  the object's address, and \<^verbatim>\<open>make_shared\<close> takes the next unused address.
\<close>

type_synonym addr = nat

datatype Object =
    ValueObj (Address: addr) (Text: string)
  | BranchObj (Address: addr) (Children: "Object list")

text \<open>The tree an object holds, identities dropped.\<close>

fun erase :: "Object \<Rightarrow> BranchBase" where
  "erase (ValueObj a s) = Value s"
| "erase (BranchObj a cs) = Branch (map erase cs)"

text \<open>The addresses of the objects reachable from an object, itself first.\<close>

fun objects :: "Object \<Rightarrow> addr list" where
  "objects (ValueObj a s) = [a]"
| "objects (BranchObj a cs) = a # concat (map objects cs)"

definition objects_of :: "Object list \<Rightarrow> addr list" where
  "objects_of ns = concat (map objects ns)"

record Machine =
  Stack :: "Object list"
  Fresh :: addr

text \<open>\<^verbatim>\<open>Copy()\<close>: the clone is allocated first, then the clones of the children in
  order. The second component is the next unused address.\<close>

fun Copy_obj :: "Object \<Rightarrow> addr \<Rightarrow> Object \<times> addr"
  and Copy_objs :: "Object list \<Rightarrow> addr \<Rightarrow> Object list \<times> addr" where
  "Copy_obj (ValueObj a s) n = (ValueObj n s, Suc n)"
| "Copy_obj (BranchObj a cs) n =
     (case Copy_objs cs (Suc n) of (cs', n') \<Rightarrow> (BranchObj n cs', n'))"
| "Copy_objs [] n = ([], n)"
| "Copy_objs (c # cs) n =
     (case Copy_obj c n of (c', n1) \<Rightarrow>
        (case Copy_objs cs n1 of (cs', n2) \<Rightarrow> (c' # cs', n2)))"

text \<open>A write to the object at address \<open>a\<close>, seen through every pointer to it.\<close>

fun update_at :: "addr \<Rightarrow> (Object \<Rightarrow> Object) \<Rightarrow> Object \<Rightarrow> Object" where
  "update_at a f (ValueObj b s) = (if a = b then f (ValueObj b s) else ValueObj b s)"
| "update_at a f (BranchObj b cs) =
     (if a = b then f (BranchObj b cs) else BranchObj b (map (update_at a f) cs))"

definition pop_obj :: "Machine \<Rightarrow> Machine" where
  "pop_obj m = m\<lparr>Stack := tl (Stack m)\<rparr>"

text \<open>\<^verbatim>\<open>Data.push(std::make_shared<Value>(com))\<close> of \<^verbatim>\<open>EvalCom\<close>, and the pushes
  of other new objects.\<close>

definition push_new_Value :: "string \<Rightarrow> Machine \<Rightarrow> Machine" where
  "push_new_Value s m = m\<lparr>Stack := ValueObj (Fresh m) s # Stack m, Fresh := Suc (Fresh m)\<rparr>"

definition push_new_Branch :: "Object list \<Rightarrow> Machine \<Rightarrow> Machine" where
  "push_new_Branch cs m = m\<lparr>Stack := BranchObj (Fresh m) cs # Stack m, Fresh := Suc (Fresh m)\<rparr>"

definition push_Copy :: "Object \<Rightarrow> Machine \<Rightarrow> Machine" where
  "push_Copy x m = (case Copy_obj x (Fresh m) of (x', n) \<Rightarrow> m\<lparr>Stack := x' # Stack m, Fresh := n\<rparr>)"

subsection \<open>Argument checks on the object stack\<close>

definition RequireTop_obj :: "int \<Rightarrow> Machine \<Rightarrow> ExecutionEngineException option" where
  "RequireTop_obj sz m =
     (if length (Stack m) < size_t_of_int sz
      then Some (ThrowWraped ''Required argument, but not passed'' Critical) else None)"

definition RequireValueTop_obj :: "Machine \<Rightarrow> ExecutionEngineException option" where
  "RequireValueTop_obj m =
     (case RequireTop_obj 1 m of Some e \<Rightarrow> Some e | None \<Rightarrow> RequireValue (erase (hd (Stack m))))"

definition RequireIntegerTop_obj :: "Machine \<Rightarrow> ExecutionEngineException option" where
  "RequireIntegerTop_obj m =
     (case RequireTop_obj 1 m of Some e \<Rightarrow> Some e | None \<Rightarrow> RequireInteger (erase (hd (Stack m))))"

definition RequireBranchTop_obj :: "Machine \<Rightarrow> ExecutionEngineException option" where
  "RequireBranchTop_obj m =
     (case RequireTop_obj 1 m of Some e \<Rightarrow> Some e | None \<Rightarrow> RequireBranch (erase (hd (Stack m))))"

subsection \<open>The operations on the object stack\<close>

definition PackTop_obj :: "Machine \<Rightarrow> Machine outcome" where
  "PackTop_obj m =
     (if length (Stack m) = 0
      then Throws (ThrowWraped ''Required argument, but not passed'' Critical) m
      else Returns (push_new_Branch (rev (take 1 (Stack m))) (m\<lparr>Stack := drop 1 (Stack m)\<rparr>)))"

fun Unpack_obj :: "Object list \<Rightarrow> Object list \<Rightarrow> addr \<Rightarrow> Object list \<times> addr" where
  "Unpack_obj [] stack n = (stack, n)"
| "Unpack_obj (i # bs) stack n =
     (case Copy_obj i n of (i', n') \<Rightarrow> Unpack_obj bs (i' # stack) n')"

text \<open>\<^verbatim>\<open>Branches.clear()\<close>\<close>

definition clear_Branches :: "Object \<Rightarrow> Object" where
  "clear_Branches x = BranchObj (Address x) []"

definition UnpackTop_obj :: "Machine \<Rightarrow> Machine outcome" where
  "UnpackTop_obj m =
     (case RequireBranchTop_obj m of
        Some e \<Rightarrow> Throws e m
      | None \<Rightarrow>
          (let br = hd (Stack m); m1 = pop_obj m
           in case Unpack_obj (Children br) (Stack m1) (Fresh m1) of
                (stack, n) \<Rightarrow>
                  Returns (m1\<lparr>Stack := map (update_at (Address br) clear_Branches) stack,
                              Fresh := n\<rparr>)))"

fun PackTopSameLevel_loop_obj ::
  "nat \<Rightarrow> Object list \<Rightarrow> Object list \<Rightarrow> Object list \<times> Object list" where
  "PackTopSameLevel_loop_obj d br [] = (br, [])"
| "PackTopSameLevel_loop_obj d br (t # stack) =
     (if Depth (erase t) = d then PackTopSameLevel_loop_obj d (br @ [t]) stack
      else (br, t # stack))"

definition PackTopSameLevel_obj :: "Machine \<Rightarrow> Machine outcome" where
  "PackTopSameLevel_obj m =
     (case Stack m of
        [] \<Rightarrow> Undefined
      | t # _ \<Rightarrow>
          (case PackTopSameLevel_loop_obj (Depth (erase t)) [] (Stack m) of
             (br, stack) \<Rightarrow> Returns (push_new_Branch br (m\<lparr>Stack := stack\<rparr>))))"

definition PackTopX_obj :: "Machine \<Rightarrow> Machine outcome" where
  "PackTopX_obj m =
     (case RequireValueTop_obj m of
        Some e \<Rightarrow> Throws e m
      | None \<Rightarrow>
          (case ReadAs_int (Text (hd (Stack m))) of
             None \<Rightarrow> Undefined
           | Some c \<Rightarrow>
               (let m1 = pop_obj m
                in if length (Stack m1) < size_t_of_int c
                   then Throws (ThrowWraped ''Too few arguments to unpack'' Critical) m1
                   else if c < 0 \<or> length (Stack m1) < nat c then Undefined
                   else Returns (push_new_Branch (rev (take (nat c) (Stack m1)))
                                   (m1\<lparr>Stack := drop (nat c) (Stack m1)\<rparr>)))))"

definition EmptyBranch_obj :: "Machine \<Rightarrow> Machine outcome" where
  "EmptyBranch_obj m = Returns (push_new_Branch [] m)"

definition EmptyElement_obj :: "Machine \<Rightarrow> Machine outcome" where
  "EmptyElement_obj m = Returns (push_new_Value [] m)"

definition CopyFromIndex_obj :: "Machine \<Rightarrow> Machine outcome" where
  "CopyFromIndex_obj m =
     (case RequireValueTop_obj m of
        Some e \<Rightarrow> Throws e m
      | None \<Rightarrow>
          (case ReadAs_int (Text (hd (Stack m))) of
             None \<Rightarrow> Undefined
           | Some c \<Rightarrow>
               (let m1 = pop_obj m
                in case RequireBranchTop_obj m1 of
                     Some e \<Rightarrow> Throws e m1
                   | None \<Rightarrow>
                       (let bs = Children (hd (Stack m1))
                        in if size_t_of_int c < length bs
                           then Returns (push_Copy (bs ! size_t_of_int c) m1)
                           else Undefined))))"

text \<open>\<^verbatim>\<open>Undot\<close> assigns to the string of the object the top points to.\<close>

definition Undot_obj :: "Machine \<Rightarrow> Machine outcome" where
  "Undot_obj m =
     (case RequireValueTop_obj m of
        Some e \<Rightarrow> Throws e m
      | None \<Rightarrow>
          (let t = hd (Stack m); v = Text t
           in Returns (m\<lparr>Stack := map (update_at (Address t)
                (\<lambda>x. ValueObj (Address x)
                   (case v of [] \<Rightarrow> [] | c # r \<Rightarrow> if c = CHR ''.'' then r else v)))
                (Stack m)\<rparr>)))"

definition Evaluator_Copy_obj :: "Machine \<Rightarrow> Machine outcome" where
  "Evaluator_Copy_obj m =
     (case RequireTop_obj 1 m of
        Some e \<Rightarrow> Throws e m
      | None \<Rightarrow> Returns (push_Copy (hd (Stack m)) m))"

function Duplicate_loop_obj :: "int \<Rightarrow> int \<Rightarrow> Machine \<Rightarrow> Machine option" where
  "Duplicate_loop_obj i c m =
     (if i < c
      then (case Stack m of [] \<Rightarrow> None | t # _ \<Rightarrow> Duplicate_loop_obj (i + 1) c (push_Copy t m))
      else Some m)"
  by pat_completeness auto
termination
  by (relation "measure (\<lambda>(i, c, m). nat (c - i))") auto

definition Duplicate_obj :: "Machine \<Rightarrow> Machine outcome" where
  "Duplicate_obj m =
     (case RequireIntegerTop_obj m of
        Some e \<Rightarrow> Throws e m
      | None \<Rightarrow>
          (case ReadAs_int (Text (hd (Stack m))) of
             None \<Rightarrow> Undefined
           | Some c \<Rightarrow>
               (case Duplicate_loop_obj 1 c (pop_obj m) of
                  None \<Rightarrow> Undefined
                | Some m' \<Rightarrow> Returns m')))"

definition lambda_pop_obj :: "Machine \<Rightarrow> Machine outcome" where
  "lambda_pop_obj m = (case Stack m of [] \<Rightarrow> Undefined | _ # rest \<Rightarrow> Returns (m\<lparr>Stack := rest\<rparr>))"

definition DeepRemove_obj :: "Machine \<Rightarrow> Machine outcome" where
  "DeepRemove_obj m =
     (case RequireIntegerTop_obj m of
        Some e \<Rightarrow> Throws e m
      | None \<Rightarrow>
          (case ReadAs_int (Text (hd (Stack m))) of
             None \<Rightarrow> Undefined
           | Some c \<Rightarrow>
               (let m1 = pop_obj m
                in case RequireTop_obj (c + 1) m1 of
                     Some e \<Rightarrow> Throws e m1
                   | None \<Rightarrow>
                       (case move_top (nat c) (Stack m1) [] of
                          None \<Rightarrow> Undefined
                        | Some ([], tmp) \<Rightarrow> Undefined
                        | Some (_ # stack, tmp) \<Rightarrow>
                            (case move_top (nat c) tmp stack of
                               None \<Rightarrow> Undefined
                             | Some (_, stack') \<Rightarrow> Returns (m1\<lparr>Stack := stack'\<rparr>))))))"

text \<open>\<^verbatim>\<open>Reverse\<close> swaps inside the object the top points to.\<close>

definition Reverse_obj :: "Machine \<Rightarrow> Machine outcome" where
  "Reverse_obj m =
     (case RequireTop_obj 1 m of
        Some e \<Rightarrow> Throws e m
      | None \<Rightarrow>
          (let t = hd (Stack m)
           in Returns (m\<lparr>Stack := map (update_at (Address t)
                (\<lambda>x. if is_value (erase x) then ValueObj (Address x) (Reverse_loop 0 (Text x))
                     else BranchObj (Address x) (Reverse_loop 0 (Children x))))
                (Stack m)\<rparr>)))"

text \<open>Column extraction over objects. The traversal reads the objects of the Branch
  on top through pointers; the output Branch and the clones are new objects.\<close>

fun work_obj :: "Object \<Rightarrow> nat" where
  "work_obj (ValueObj a s) = 0"
| "work_obj (BranchObj a cs) = Suc (sum_list (map (\<lambda>b. Suc (work_obj b)) cs))"

definition frame_work_obj :: "Object \<times> nat \<Rightarrow> nat" where
  "frame_work_obj f =
     Suc (sum_list (map (\<lambda>b. Suc (work_obj b)) (drop (snd f) (Children (fst f)))))"

function ExtractColumnPack_loop_obj ::
  "int \<Rightarrow> int \<Rightarrow> Object list \<Rightarrow> nat list \<Rightarrow> Object list \<Rightarrow> addr
     \<Rightarrow> (Object list \<times> addr) option" where
  "ExtractColumnPack_loop_obj index depth [] cp nbranch n = Some (nbranch, n)"
| "ExtractColumnPack_loop_obj index depth (b # br) [] nbranch n = None"
| "ExtractColumnPack_loop_obj index depth (b # br) (c # cp) nbranch n =
     (if c \<ge> length (Children b)
      then ExtractColumnPack_loop_obj index depth br cp nbranch n
      else if length (b # br) = size_t_of_int depth
      then (if size_t_of_int index < length (Children b)
            then (case Copy_obj (Children b ! size_t_of_int index) n of
                    (x, n') \<Rightarrow> ExtractColumnPack_loop_obj index depth br cp (nbranch @ [x]) n')
            else ExtractColumnPack_loop_obj index depth br cp nbranch n)
      else if is_branch (erase (Children b ! c))
      then ExtractColumnPack_loop_obj index depth (Children b ! c # b # br) (0 # Suc c # cp)
             nbranch n
      else ExtractColumnPack_loop_obj index depth (b # br) (Suc c # cp) nbranch n)"
  by pat_completeness auto
termination
proof -
  have opened: "work_obj x = frame_work_obj (x, 0)" if "is_branch (erase x)" for x
    using that by (cases x) (simp_all add: is_branch_def frame_work_obj_def)
  have advanced:
    "frame_work_obj (b, c) = Suc (work_obj (Children b ! c)) + frame_work_obj (b, Suc c)"
    if "c < length (Children b)" for b c
    using that by (simp add: frame_work_obj_def flip: Cons_nth_drop_Suc)
  show ?thesis
    by (relation "measure (\<lambda>(index, depth, br, cp, nbranch, n).
                    sum_list (map frame_work_obj (zip br cp)))")
       (auto simp: advanced opened, simp_all add: frame_work_obj_def)
qed

definition ExtractColumnPack_obj :: "Machine \<Rightarrow> Machine outcome" where
  "ExtractColumnPack_obj m =
     (case RequireValueTop_obj m of
        Some e \<Rightarrow> Throws e m
      | None \<Rightarrow>
          (case ReadAs_int (Text (hd (Stack m))) of
             None \<Rightarrow> Undefined
           | Some index \<Rightarrow>
               (let m1 = pop_obj m
                in case RequireValueTop_obj m1 of
                     Some e \<Rightarrow> Throws e m1
                   | None \<Rightarrow>
                       (case ReadAs_int (Text (hd (Stack m1))) of
                          None \<Rightarrow> Undefined
                        | Some depth \<Rightarrow>
                            (let m2 = pop_obj m1
                             in if depth < 1
                                then Throws (ThrowWraped ''Cannot extract from zero depth'' Critical) m2
                                else case RequireBranchTop_obj m2 of
                                       Some e \<Rightarrow> Throws e m2
                                     | None \<Rightarrow>
                                         (case ExtractColumnPack_loop_obj index depth
                                                 [hd (Stack m2)] [0] [] (Suc (Fresh m2)) of
                                            None \<Rightarrow> Undefined
                                          | Some (nbranch, n) \<Rightarrow>
                                              Returns (m2\<lparr>Stack := BranchObj (Fresh m2) nbranch # Stack m2,
                                                          Fresh := n\<rparr>)))))))"

text \<open>\<^verbatim>\<open>nbr.top()->Branches.push_back(x)\<close>: a write through a pointer into the
  output tree. The pointer is an \<^verbatim>\<open>sp<Branch>\<close>, so no Value is written to.\<close>

definition push_back_obj :: "addr \<Rightarrow> Object \<Rightarrow> Object \<Rightarrow> Object" where
  "push_back_obj a x tree =
     update_at a (\<lambda>t. case t of BranchObj b cs \<Rightarrow> BranchObj b (cs @ [x]) | ValueObj b s \<Rightarrow> t) tree"

function ExtractGroupedColumnPack_loop_obj ::
  "int \<Rightarrow> int \<Rightarrow> Object list \<Rightarrow> nat list \<Rightarrow> addr list \<Rightarrow> Object \<Rightarrow> addr
     \<Rightarrow> (Object \<times> addr) option" where
  "ExtractGroupedColumnPack_loop_obj index depth [] cp nbr nbranch n = Some (nbranch, n)"
| "ExtractGroupedColumnPack_loop_obj index depth (b # br) [] nbr nbranch n = None"
| "ExtractGroupedColumnPack_loop_obj index depth (b # br) (c # cp) [] nbranch n = None"
| "ExtractGroupedColumnPack_loop_obj index depth (b # br) (c # cp) (p # nbr) nbranch n =
     (if c \<ge> length (Children b)
      then ExtractGroupedColumnPack_loop_obj index depth br cp nbr nbranch n
      else if length (b # br) = size_t_of_int depth
      then (if size_t_of_int index < length (Children b)
            then (case Copy_obj (Children b ! size_t_of_int index) n of
                    (x, n') \<Rightarrow> ExtractGroupedColumnPack_loop_obj index depth br cp nbr
                                 (push_back_obj p x nbranch) n')
            else ExtractGroupedColumnPack_loop_obj index depth br cp nbr nbranch n)
      else if is_branch (erase (Children b ! c))
      then ExtractGroupedColumnPack_loop_obj index depth (Children b ! c # b # br)
             (0 # Suc c # cp) (n # p # nbr) (push_back_obj p (BranchObj n []) nbranch) (Suc n)
      else ExtractGroupedColumnPack_loop_obj index depth (b # br) (Suc c # cp) (p # nbr)
             nbranch n)"
  by pat_completeness auto
termination
proof -
  have opened: "work_obj x = frame_work_obj (x, 0)" if "is_branch (erase x)" for x
    using that by (cases x) (simp_all add: is_branch_def frame_work_obj_def)
  have advanced:
    "frame_work_obj (b, c) = Suc (work_obj (Children b ! c)) + frame_work_obj (b, Suc c)"
    if "c < length (Children b)" for b c
    using that by (simp add: frame_work_obj_def flip: Cons_nth_drop_Suc)
  show ?thesis
    by (relation "measure (\<lambda>(index, depth, br, cp, nbr, nbranch, n).
                    sum_list (map frame_work_obj (zip br cp)))")
       (auto simp: advanced opened, simp_all add: frame_work_obj_def)
qed

definition ExtractGroupedColumnPack_obj :: "Machine \<Rightarrow> Machine outcome" where
  "ExtractGroupedColumnPack_obj m =
     (case RequireValueTop_obj m of
        Some e \<Rightarrow> Throws e m
      | None \<Rightarrow>
          (case ReadAs_int (Text (hd (Stack m))) of
             None \<Rightarrow> Undefined
           | Some index \<Rightarrow>
               (let m1 = pop_obj m
                in case RequireValueTop_obj m1 of
                     Some e \<Rightarrow> Throws e m1
                   | None \<Rightarrow>
                       (case ReadAs_int (Text (hd (Stack m1))) of
                          None \<Rightarrow> Undefined
                        | Some depth \<Rightarrow>
                            (let m2 = pop_obj m1
                             in if depth < 1
                                then Throws (ThrowWraped ''Cannot extract from zero depth'' Critical) m2
                                else case RequireBranchTop_obj m2 of
                                       Some e \<Rightarrow> Throws e m2
                                     | None \<Rightarrow>
                                         (case ExtractGroupedColumnPack_loop_obj index depth
                                                 [hd (Stack m2)] [0] [Fresh m2]
                                                 (BranchObj (Fresh m2) []) (Suc (Fresh m2)) of
                                            None \<Rightarrow> Undefined
                                          | Some (nbranch, n) \<Rightarrow>
                                              Returns (m2\<lparr>Stack := nbranch # Stack m2,
                                                          Fresh := n\<rparr>)))))))"

text \<open>The leaves \<^verbatim>\<open>SplitRow\<close> makes are new objects, allocated in order after the
  Branch that holds them. When an exception leaves the loop, the Branch and its leaves
  are destroyed with the local pointer \<open>r\<close>.\<close>

definition new_Values :: "string list \<Rightarrow> addr \<Rightarrow> Object list" where
  "new_Values ss n = map (\<lambda>(a, s). ValueObj a s) (zip [n..<n + length ss] ss)"

definition SplitRow_obj :: "Machine \<Rightarrow> Machine outcome" where
  "SplitRow_obj m =
     (case RequireValueTop_obj m of
        Some e \<Rightarrow> Throws e m
      | None \<Rightarrow>
          (let split = Text (hd (Stack m))
           in if length split = 0
              then Throws (ThrowWraped ''Empty passed as split'' Critical) m
              else (let m1 = pop_obj m
                    in case RequireValueTop_obj m1 of
                         Some e \<Rightarrow> Throws e m1
                       | None \<Rightarrow>
                           (let v = Text (hd (Stack m1)); m2 = pop_obj m1
                            in case SplitRow_loop v split 0 (find_or_size v split 0) [] of
                                 None \<Rightarrow> Undefined
                               | Some (Returns r) \<Rightarrow>
                                   Returns (m2\<lparr>Stack :=
                                       BranchObj (Fresh m2)
                                         (new_Values (map Stored r) (Suc (Fresh m2))) # Stack m2,
                                     Fresh := Suc (Fresh m2) + length r\<rparr>)
                               | Some (Throws e r) \<Rightarrow> Throws e m2
                               | Some (Throws_std x r) \<Rightarrow> Throws_std x m2
                               | Some Undefined \<Rightarrow> Undefined))))"

definition ConcatRow_obj :: "Machine \<Rightarrow> Machine outcome" where
  "ConcatRow_obj m =
     (case RequireValueTop_obj m of
        Some e \<Rightarrow> Throws e m
      | None \<Rightarrow>
          (let space = Text (hd (Stack m)); m1 = pop_obj m
           in case RequireBranchTop_obj m1 of
                Some e \<Rightarrow> Throws e m1
              | None \<Rightarrow>
                  (let br = hd (Stack m1); m2 = pop_obj m1
                   in Returns (push_new_Value
                        (ConcatRow_loop space (map erase (Children br)) False []) m2))))"

fun Func_obj :: "Function \<Rightarrow> Machine \<Rightarrow> Machine outcome" where
  "Func_obj Fn_PackTop = PackTop_obj"
| "Func_obj Fn_PackTopSameLevel = PackTopSameLevel_obj"
| "Func_obj Fn_UnpackTop = UnpackTop_obj"
| "Func_obj Fn_PackTopX = PackTopX_obj"
| "Func_obj Fn_EmptyBranch = EmptyBranch_obj"
| "Func_obj Fn_EmptyElement = EmptyElement_obj"
| "Func_obj Fn_CopyFromIndex = CopyFromIndex_obj"
| "Func_obj Fn_ExtractColumnPack = ExtractColumnPack_obj"
| "Func_obj Fn_ExtractGroupedColumnPack = ExtractGroupedColumnPack_obj"
| "Func_obj Fn_Copy = Evaluator_Copy_obj"
| "Func_obj Fn_Duplicate = Duplicate_obj"
| "Func_obj Fn_pop = lambda_pop_obj"
| "Func_obj Fn_DeepRemove = DeepRemove_obj"
| "Func_obj Fn_Undot = Undot_obj"
| "Func_obj Fn_ConcatRow = ConcatRow_obj"
| "Func_obj Fn_SplitRow = SplitRow_obj"
| "Func_obj Fn_Reverse = Reverse_obj"

subsection \<open>Ownership\<close>

text \<open>Exclusive ownership: no object is reached twice from the stack, and every object
  on it is older than the next allocation.\<close>

definition exclusive :: "Machine \<Rightarrow> bool" where
  "exclusive m =
     (distinct (objects_of (Stack m)) \<and> list_all (\<lambda>a. a < Fresh m) (objects_of (Stack m)))"

text \<open>The elements of a stack are pairwise disjoint: no object is reachable from two of
  them.\<close>

fun disjoint_elements :: "Object list \<Rightarrow> bool" where
  "disjoint_elements [] = True"
| "disjoint_elements (x # xs) =
     (list_all (\<lambda>y. set (objects x) \<inter> set (objects y) = {}) xs \<and> disjoint_elements xs)"

text \<open>The states of the object stack an evaluator can be in: it starts empty, and every
  token either pushes a new leaf or runs a registered operation, which returns or
  throws (a caught throw leaves the state of the throw behind, and so does an exception
  of the standard library that the caller of the evaluator catches).\<close>

inductive reachable :: "Machine \<Rightarrow> bool" where
  start: "reachable \<lparr>Stack = [], Fresh = 0\<rparr>"
| literal: "reachable m \<Longrightarrow> reachable (push_new_Value com m)"
| returned: "reachable m \<Longrightarrow> Func_obj f m = Returns m' \<Longrightarrow> reachable m'"
| thrown: "reachable m \<Longrightarrow> Func_obj f m = Throws e m' \<Longrightarrow> reachable m'"
| thrown_std: "reachable m \<Longrightarrow> Func_obj f m = Throws_std x m' \<Longrightarrow> reachable m'"

section \<open>Reference definitions for the statements\<close>

text \<open>The trace as the specification words it: the tokens executed so far, the failing
  one last.\<close>

definition trace_so_far :: "string list \<Rightarrow> nat \<Rightarrow> string" where
  "trace_so_far coms i = concat (map (\<lambda>j. [CHR 0x09] @ coms ! j @ [CHR 0x0A]) [0..<i + 1])"

text \<open>Running one operation after another: the second runs on the state the first
  returns, and a throw or undefined behaviour of the first is the result.\<close>

definition and_then :: "'s outcome \<Rightarrow> ('s \<Rightarrow> 's outcome) \<Rightarrow> 's outcome" where
  "and_then r f =
     (case r of Returns s \<Rightarrow> f s | Throws e s \<Rightarrow> Throws e s
      | Throws_std x s \<Rightarrow> Throws_std x s | Undefined \<Rightarrow> Undefined)"

text \<open>The decimal numeral of a natural number, the text of the leaf that holds a count.\<close>

fun digits_of :: "nat \<Rightarrow> string" where
  "digits_of n =
     (if n < 10 then [char_of (48 + n)] else digits_of (n div 10) @ [char_of (48 + n mod 10)])"

text \<open>
  The column as the specification words it: at every Branch whose nesting distance from
  the root is \<open>d\<close> (the root itself is at distance 0), a clone of the child at position
  \<open>idx\<close> when there is one, in depth-first order.
\<close>

fun column_at_distance :: "nat \<Rightarrow> nat \<Rightarrow> BranchBase \<Rightarrow> BranchBase list" where
  "column_at_distance idx d (Value s) = []"
| "column_at_distance idx 0 (Branch bs) = (if idx < length bs then [Copy (bs ! idx)] else [])"
| "column_at_distance idx (Suc d) (Branch bs) = concat (map (column_at_distance idx d) bs)"

text \<open>
  For the loop invariant of \<^verbatim>\<open>ExtractColumnPack\<close>: what an open Branch with its
  cursor at \<open>c\<close> still adds to the output when the target level is \<open>m\<close> levels below
  it, and what a whole stack of open Branches adds.
\<close>

fun frame_out :: "nat \<Rightarrow> nat \<Rightarrow> BranchBase \<Rightarrow> nat \<Rightarrow> BranchBase list" where
  "frame_out idx 0 b c =
     (if c < length (Branches b) \<and> idx < length (Branches b)
      then [Copy (Branches b ! idx)] else [])"
| "frame_out idx (Suc m) b c =
     concat (map (\<lambda>x. if is_branch x then frame_out idx m x 0 else []) (drop c (Branches b)))"

fun stack_out :: "nat \<Rightarrow> nat \<Rightarrow> BranchBase list \<Rightarrow> nat list \<Rightarrow> BranchBase list" where
  "stack_out idx m (b # br) (c # cp) = frame_out idx m b c @ stack_out idx (Suc m) br cp"
| "stack_out idx m br cp = []"

text \<open>An outcome keeps the ownership: the state an operation returns, or leaves behind
  when it throws, is exclusive.\<close>

definition kept :: "Machine outcome \<Rightarrow> bool" where
  "kept r =
     (case r of Returns m' \<Rightarrow> exclusive m' | Throws e m' \<Rightarrow> exclusive m'
      | Throws_std x m' \<Rightarrow> exclusive m' | Undefined \<Rightarrow> True)"

text \<open>The level of the exception an outcome throws, as \<^verbatim>\<open>ErrorLevel()\<close> returns it.\<close>

definition raised_level :: "'s outcome \<Rightarrow> Level option" where
  "raised_level r =
     (case r of Throws e s \<Rightarrow> Some (ErrorLevel e) | Returns s \<Rightarrow> None
      | Throws_std x s \<Rightarrow> None | Undefined \<Rightarrow> None)"

text \<open>
  The outcome of an operation on the object stack, seen as an outcome of the evaluator
  \<open>ev\<close> whose Data Stack holds the trees of the objects.
\<close>

definition erase_outcome :: "Evaluator \<Rightarrow> Machine outcome \<Rightarrow> Evaluator outcome" where
  "erase_outcome ev r =
     (case r of Returns m \<Rightarrow> Returns (ev\<lparr>Data := map erase (Stack m)\<rparr>)
      | Throws e m \<Rightarrow> Throws e (ev\<lparr>Data := map erase (Stack m)\<rparr>)
      | Throws_std x m \<Rightarrow> Throws_std x (ev\<lparr>Data := map erase (Stack m)\<rparr>)
      | Undefined \<Rightarrow> Undefined)"

text \<open>
  The object at a path of child positions, and "the pointer \<open>a\<close> is the Branch at
  the path \<open>p\<close>": they relate the pointers \<^verbatim>\<open>ExtractGroupedColumnPack\<close> keeps
  into its output to the paths of the tree model.
\<close>

fun at_obj :: "nat list \<Rightarrow> Object \<Rightarrow> Object option" where
  "at_obj [] t = Some t"
| "at_obj (i # p) (BranchObj a cs) = (if i < length cs then at_obj p (cs ! i) else None)"
| "at_obj (i # p) (ValueObj a s) = None"

definition points_to :: "Object \<Rightarrow> nat list \<Rightarrow> addr \<Rightarrow> bool" where
  "points_to t p a = (\<exists>cs. at_obj p t = Some (BranchObj a cs))"

section \<open>Properties\<close>

declare Duplicate_loop.simps [simp del] Reverse_loop.simps [simp del]
  string_find.simps [simp del] EvalComs_loop.simps [simp del] Require_loop.simps [simp del]
  ExtractColumnPack_loop.simps [simp del] ExtractGroupedColumnPack_loop.simps [simp del]
  digits_of.simps [simp del]

subsection \<open>Basic facts\<close>

lemma Functions_LoadDefault:
  "Functions (LoadDefault (new_Evaluator lvl)) =
     [(''^t'', Fn_PackTop), (''^'', Fn_PackTopSameLevel), (''^_t'', Fn_UnpackTop),
      (''^tc'', Fn_PackTopX), (''|Eb'', Fn_EmptyBranch), (''|Ev'', Fn_EmptyElement),
      (''|i'', Fn_CopyFromIndex), (''|id'', Fn_ExtractColumnPack), (''|['', Fn_CopyFromIndex),
      (''|]'', Fn_ExtractColumnPack), (''|]g'', Fn_ExtractGroupedColumnPack), (''|'', Fn_Copy),
      (''|c'', Fn_Duplicate), (''#'', Fn_pop), (''#d'', Fn_DeepRemove), (''$'', Fn_Undot),
      (''$^'', Fn_ConcatRow), (''$_'', Fn_SplitRow), (''_'', Fn_Reverse)]"
  by (simp add: LoadDefault_def new_Evaluator_def Functions_insert_def)

lemma LoadDefault_fields:
  "Data (LoadDefault ev) = Data ev" "Log (LoadDefault ev) = Log ev"
  "ApprovedLevel (LoadDefault ev) = ApprovedLevel ev"
  by (simp_all add: LoadDefault_def)

lemma new_Evaluator_fields:
  "Data (new_Evaluator lvl) = []" "Log (new_Evaluator lvl) = []"
  "ApprovedLevel (new_Evaluator lvl) = lvl"
  by (simp_all add: new_Evaluator_def)

lemma ErrorLevel_ThrowWraped: "ErrorLevel (ThrowWraped msg level) = Fatal"
  by (simp add: ThrowWraped_def new_Exception_def)

lemma what_ThrowWraped: "what (ThrowWraped msg level) = ''Execution engine exception'' @ msg"
  by (simp add: ThrowWraped_def new_Exception_def)

lemma Copy_id: "Copy t = t"
  by (induction t) (simp_all add: map_idI)

lemma ReadAs_int_0: "ReadAs_int ''0'' = Some 0"
  by (simp add: ReadAs_int_def isspace_def isdigit_def decimal_def digit_val_def saturate_def
      INT_MAX_def INT_MIN_def)

lemma ReadAs_int_1: "ReadAs_int ''1'' = Some 1"
  by (simp add: ReadAs_int_def isspace_def isdigit_def decimal_def digit_val_def saturate_def
      INT_MAX_def INT_MIN_def)

lemma PackTopSameLevel_loop_eq:
  "PackTopSameLevel_loop d br stack =
     (br @ takeWhile (\<lambda>n. Depth n = d) stack, dropWhile (\<lambda>n. Depth n = d) stack)"
  by (induction stack arbitrary: br) simp_all

lemma isdigit_char_of: "(d::nat) < 10 \<Longrightarrow> isdigit (char_of (48 + d))"
  by (simp add: isdigit_def)

lemma digit_val_char_of: "(d::nat) < 10 \<Longrightarrow> digit_val (char_of (48 + d)) = int d"
  by (simp add: digit_val_def)

lemma digits_of_all: "list_all isdigit (digits_of n)"
  by (induction n rule: digits_of.induct) (subst digits_of.simps, simp add: isdigit_char_of)

lemma digits_of_ne: "digits_of n \<noteq> []"
  by (subst digits_of.simps) simp

lemma decimal_snoc: "decimal (ds @ [c]) = 10 * decimal ds + digit_val c"
  by (simp add: decimal_def)

lemma decimal_digits_of: "decimal (digits_of n) = int n"
proof (induction n rule: digits_of.induct)
  case (1 n)
  show ?case
  proof (cases "n < 10")
    case True
    then show ?thesis
      by (subst digits_of.simps) (simp add: decimal_def digit_val_char_of)
  next
    case False
    then have "decimal (digits_of n) = 10 * int (n div 10) + int (n mod 10)"
      using 1 by (subst digits_of.simps) (simp add: decimal_snoc digit_val_char_of)
    then show ?thesis by (simp add: zdiv_int zmod_int)
  qed
qed

lemma isdigit_not_space: "isdigit c \<Longrightarrow> \<not> isspace c \<and> c \<noteq> CHR ''-'' \<and> c \<noteq> CHR ''+''"
  by (auto simp: isdigit_def isspace_def)

lemma ReadAs_int_digits:
  assumes "s \<noteq> []" and "list_all isdigit s"
  shows "ReadAs_int s = Some (saturate (decimal s))"
proof -
  obtain c r where s: "s = c # r" using assms(1) by (cases s) auto
  have c: "isdigit c" using assms(2) s by simp
  have tw: "takeWhile isdigit s = s"
    using assms(2) by (simp add: list_all_iff takeWhile_eq_all_conv)
  show ?thesis
    using isdigit_not_space [OF c] tw
    by (simp add: ReadAs_int_def s)
qed

lemma ReadAs_int_digits_of: "ReadAs_int (digits_of n) = Some (saturate (int n))"
  by (simp add: ReadAs_int_digits digits_of_ne digits_of_all decimal_digits_of)

lemma Unpack_eq: "Unpack br stack = rev (Branches br) @ stack"
proof -
  have "fold (\<lambda>i s. Copy i # s) xs stack = rev xs @ stack" for xs
    by (induction xs arbitrary: stack) (simp_all add: Copy_id)
  then show ?thesis by (simp add: Unpack_def)
qed

lemma saturate_nat: "0 \<le> saturate (int c) \<and> nat (saturate (int c)) \<le> c"
  by (simp add: saturate_def INT_MAX_def INT_MIN_def)

lemma size_t_of_int_small: "0 \<le> c \<Longrightarrow> c \<le> INT_MAX \<Longrightarrow> size_t_of_int c = nat c"
  by (simp add: size_t_of_int_def INT_MAX_def)

lemma saturate_le: "saturate v \<le> INT_MAX" "INT_MIN \<le> saturate v"
  by (simp_all add: saturate_def INT_MAX_def INT_MIN_def)











lemma SplitRow_loop_leaves:
  assumes "SplitRow_loop v split p np r = Some (Returns r')"
    and "map (\<lambda>x. Value (Stored x)) r = r"
  shows "map (\<lambda>x. Value (Stored x)) r' = r'"
proof -
  have "\<forall>r'. res = Returns r' \<longrightarrow> map (\<lambda>x. Value (Stored x)) r = r
           \<longrightarrow> map (\<lambda>x. Value (Stored x)) r' = r'"
    if "SplitRow_loop v split p np r = Some res" for res
  proof (rule SplitRow_loop.raw_induct
      [where P = "\<lambda>v split p np r res. \<forall>r'. res = Returns r'
                     \<longrightarrow> map (\<lambda>x. Value (Stored x)) r = r
                     \<longrightarrow> map (\<lambda>x. Value (Stored x)) r' = r'", OF _ that], goal_cases)
    case (1 f v split p np r res)
    show ?case
    proof (cases "push_back_substr v p np r")
      case (Returns r1)
      then have r1: "map (\<lambda>x. Value (Stored x)) r = r \<longrightarrow> map (\<lambda>x. Value (Stored x)) r1 = r1"
        by (auto simp: push_back_substr_def split: if_splits option.splits)
      show ?thesis
      proof (cases "size_t_of_int np \<noteq> length v")
        case True
        then show ?thesis using 1 Returns r1 by (auto simp: Let_def)
      next
        case False
        then show ?thesis using 1 Returns r1 by auto
      qed
    qed (use 1 in \<open>auto split: if_splits\<close>)
  qed
  then show ?thesis using assms by blast
qed


lemma SplitRow_loop_no_Throws: "SplitRow_loop v split p np r \<noteq> Some (Throws e r')"
proof
  assume a: "SplitRow_loop v split p np r = Some (Throws e r')"
  have "\<forall>e r'. res \<noteq> Throws e r'" if "SplitRow_loop v split p np r = Some res" for res
  proof (rule SplitRow_loop.raw_induct
      [where P = "\<lambda>v split p np r res. \<forall>e r'. res \<noteq> Throws e r'", OF _ that], goal_cases)
    case (1 f v split p np r res)
    have "push_back_substr v p np r \<noteq> Throws e r'" for e r'
      by (simp add: push_back_substr_def split: option.splits)
    then show ?case
      using 1 by (cases "push_back_substr v p np r") (auto simp: Let_def split: if_splits)
  qed
  from this [OF a] show False by simp
qed


lemma frame_out_done: "length (Branches b) \<le> c \<Longrightarrow> frame_out idx m b c = []"
  by (cases m) simp_all

lemma frame_out_next:
  "c < length (Branches b) \<Longrightarrow>
     frame_out idx (Suc m) b c =
       (if is_branch (Branches b ! c) then frame_out idx m (Branches b ! c) 0 else [])
       @ frame_out idx (Suc m) b (Suc c)"
  by (simp flip: Cons_nth_drop_Suc)

lemma ExtractColumnPack_loop_out:
  "length br = length cp \<Longrightarrow> length br + m = size_t_of_int depth \<Longrightarrow>
     ExtractColumnPack_loop index depth br cp nbranch =
       Some (nbranch @ stack_out (size_t_of_int index) m br cp)"
proof (induction index depth br cp nbranch arbitrary: m rule: ExtractColumnPack_loop.induct)
  case (1 index depth cp nbranch)
  then show ?case by (simp add: ExtractColumnPack_loop.simps)
next
  case (2 index depth b br nbranch)
  then show ?case by simp
next
  case (3 index depth b br c cp nbranch)
  let ?idx = "size_t_of_int index"
  have len: "length br = length cp" using "3.prems" by simp
  show ?case
  proof (cases "length (Branches b) \<le> c")
    case True
    then show ?thesis
      using "3.IH"(1) [of "Suc m"] "3.prems" len
      by (simp add: ExtractColumnPack_loop.simps frame_out_done)
  next
    case inside: False
    show ?thesis
    proof (cases "length (b # br) = size_t_of_int depth")
      case True
      then have m: "m = 0" using "3.prems" by simp
      show ?thesis
        using "3.IH"(2) [OF inside True, of "Suc 0"] inside True len
        by (simp add: ExtractColumnPack_loop.simps m)
    next
      case deeper: False
      then obtain m' where m: "m = Suc m'" using "3.prems" by (cases m) auto
      show ?thesis
      proof (cases "is_branch (Branches b ! c)")
        case True
        show ?thesis
          using "3.IH"(3) [OF inside deeper True, of m'] "3.prems" inside deeper True
          by (simp add: ExtractColumnPack_loop.simps m frame_out_next del: frame_out.simps)
      next
        case False
        show ?thesis
          using "3.IH"(4) [OF inside deeper False, of m] "3.prems" inside deeper False
          by (simp add: ExtractColumnPack_loop.simps m frame_out_next del: frame_out.simps)
      qed
    qed
  qed
qed

lemma is_branch_simps: "is_branch (Branch bs)" "\<not> is_branch (Value s)"
  by (simp_all add: is_branch_def)

lemma frame_out_column: "frame_out idx m (Branch bs) 0 = column_at_distance idx m (Branch bs)"
proof (induction m arbitrary: bs)
  case 0
  then show ?case by auto
next
  case (Suc m)
  have "(if is_branch x then frame_out idx m x 0 else []) = column_at_distance idx m x" for x
    by (cases x) (simp_all add: is_branch_simps Suc.IH)
  then show ?case by simp
qed

lemma ExtractColumnPack_loop_root:
  assumes "1 \<le> size_t_of_int depth"
  shows "ExtractColumnPack_loop index depth [Branch bs] [0] [] =
           Some (column_at_distance (size_t_of_int index) (size_t_of_int depth - 1) (Branch bs))"
  using ExtractColumnPack_loop_out [of "[Branch bs]" "[0]" "size_t_of_int depth - 1" depth index "[]"]
    assms
  by (simp add: frame_out_column del: frame_out.simps)

lemma ReadAs_int_range: "ReadAs_int s = Some v \<Longrightarrow> INT_MIN \<le> v \<and> v \<le> INT_MAX"
  using saturate_le
  by (auto simp: ReadAs_int_def Let_def INT_MIN_def INT_MAX_def split: list.splits if_splits)

lemma Require_step_no_cursor: "Require_step ch (l, []) \<noteq> Returns s"
  by (simp add: Require_step_def Require_pop_def Require_b_def Require_advance_def
      Require_current_def split: list.splits)

lemma Require_levels:
  "RequireValue br = Some e \<Longrightarrow> ErrorLevel e = Fatal"
  "RequireBranch br = Some e \<Longrightarrow> ErrorLevel e = Fatal"
  "RequireInteger br = Some e \<Longrightarrow> ErrorLevel e = Fatal"
  "RequireTop sz ev = Some e \<Longrightarrow> ErrorLevel e = Fatal"
  by (auto simp: RequireValue_def RequireBranch_def RequireInteger_def RequireTop_def
      ErrorLevel_ThrowWraped split: if_splits option.splits)

lemma RequireTop_levels:
  "RequireValueTop ev = Some e \<Longrightarrow> ErrorLevel e = Fatal"
  "RequireBranchTop ev = Some e \<Longrightarrow> ErrorLevel e = Fatal"
  "RequireIntegerTop ev = Some e \<Longrightarrow> ErrorLevel e = Fatal"
  by (auto simp: RequireValueTop_def RequireBranchTop_def RequireIntegerTop_def
      split: option.splits dest: Require_levels)

lemma Func_raises_Fatal:
  assumes "Func f ev = Throws e ev'"
  shows "ErrorLevel e = Fatal"
proof (cases f)
  case Fn_PackTop
  with assms show ?thesis
    by (auto simp: PackTop_def ErrorLevel_ThrowWraped split: if_splits option.splits prod.splits)
next
  case Fn_PackTopSameLevel
  with assms show ?thesis
    by (auto simp: PackTopSameLevel_def split: list.splits prod.splits)
next
  case Fn_UnpackTop
  with assms show ?thesis
    by (auto simp: UnpackTop_def Let_def split: option.splits dest: RequireTop_levels)
next
  case Fn_PackTopX
  with assms show ?thesis
    by (auto simp: PackTopX_def Let_def ErrorLevel_ThrowWraped
        split: option.splits if_splits prod.splits dest: RequireTop_levels)
next
  case Fn_EmptyBranch
  with assms show ?thesis by (simp add: EmptyBranch_def)
next
  case Fn_EmptyElement
  with assms show ?thesis by (simp add: EmptyElement_def)
next
  case Fn_CopyFromIndex
  with assms show ?thesis
    by (auto simp: CopyFromIndex_def Let_def split: option.splits if_splits dest: RequireTop_levels)
next
  case Fn_ExtractColumnPack
  with assms show ?thesis
    by (auto simp: ExtractColumnPack_def Let_def ErrorLevel_ThrowWraped
        split: option.splits if_splits dest: RequireTop_levels)
next
  case Fn_ExtractGroupedColumnPack
  with assms show ?thesis
    by (auto simp: ExtractGroupedColumnPack_def Let_def ErrorLevel_ThrowWraped
        split: option.splits if_splits dest: RequireTop_levels)
next
  case Fn_Copy
  with assms show ?thesis
    by (auto simp: Evaluator_Copy_def split: option.splits dest: Require_levels)
next
  case Fn_Duplicate
  with assms show ?thesis
    by (auto simp: Duplicate_def split: option.splits dest: RequireTop_levels)
next
  case Fn_pop
  with assms show ?thesis by (auto simp: lambda_pop_def split: list.splits)
next
  case Fn_DeepRemove
  with assms show ?thesis
    by (auto simp: DeepRemove_def Let_def split: option.splits list.splits prod.splits
        dest: RequireTop_levels Require_levels)
next
  case Fn_Undot
  with assms show ?thesis
    by (auto simp: Undot_def Let_def split: option.splits dest: RequireTop_levels)
next
  case Fn_ConcatRow
  with assms show ?thesis
    by (auto simp: ConcatRow_def Let_def split: option.splits dest: RequireTop_levels)
next
  case Fn_SplitRow
  with assms show ?thesis
    by (auto simp: SplitRow_def Let_def ErrorLevel_ThrowWraped SplitRow_loop_no_Throws
        split: option.splits if_splits outcome.splits dest: RequireTop_levels)
next
  case Fn_Reverse
  with assms show ?thesis
    by (auto simp: Reverse_def Let_def split: option.splits dest: Require_levels)
qed

lemma raised_level_Func:
  "raised_level (Func f ev) = None \<or> raised_level (Func f ev) = Some Fatal"
  using Func_raises_Fatal [of f ev]
  by (cases "Func f ev") (simp_all add: raised_level_def)

lemma com_trace_replicate:
  "com_trace coms i = concat (replicate (Suc i) ([CHR 0x09] @ coms ! i @ [CHR 0x0A]))"
  by (simp add: com_trace_def map_replicate_const)

subsection \<open>Severity of thrown errors and the dispatcher's gate\<close>

text \<open>
  C1 (the code departs from the claim). Every error an operation raises goes through
  \<^verbatim>\<open>ThrowWraped\<close>, which gives the requested level to the inner exception only:
  the exception that is thrown, and whose \<^verbatim>\<open>ErrorLevel()\<close> the dispatcher reads,
  has level Fatal. No registered operation, in any state, throws an exception of another
  level. So with \<^verbatim>\<open>ApprovedLevel\<close> set to Critical a missing argument of "^t" is
  logged and then thrown again out of \<^verbatim>\<open>EvalCom\<close>; it is not absorbed.
\<close>

theorem EvalCom_Critical_threshold_rethrows:
  "ErrorLevel (ThrowWraped msg Critical) = Fatal \<and>
   (raised_level (Func f ev) = None \<or> raised_level (Func f ev) = Some Fatal) \<and>
   EvalCom ''^t'' True True (LoadDefault (new_Evaluator Critical)) =
     Throws (ThrowWraped ''Required argument, but not passed'' Critical)
       ((LoadDefault (new_Evaluator Critical))
          \<lparr>Log := [''Execution engine exceptionRequired argument, but not passed''
                    @ [CHR 0x0A] @ ''Caused during invoking:^t'']\<rparr>)"
  using raised_level_Func [of f ev]
  by (simp add: EvalCom_def Functions_LoadDefault LoadDefault_fields PackTop_def
      new_Evaluator_fields ErrorLevel_ThrowWraped Level_gt_def caused_during_def what_ThrowWraped)

text \<open>
  C2 (the code departs from the claim). The callback registered as "#" pops without a
  check. On the empty stack of a fresh evaluator, whatever \<^verbatim>\<open>ApprovedLevel\<close> holds,
  the evaluation of "#" neither returns nor throws an engine exception: it is undefined
  behaviour.
\<close>

theorem EvalCom_pop_on_empty_stack_is_undefined:
  "EvalCom ''#'' log catch_localy (LoadDefault (new_Evaluator lvl)) = Undefined"
  by (simp add: EvalCom_def Functions_LoadDefault LoadDefault_fields lambda_pop_def
      new_Evaluator_fields)

subsection \<open>Packing\<close>

text \<open>
  C6. On a stack whose top is \<open>t\<close>, \<^verbatim>\<open>PackTopSameLevel\<close> pops the longest run of
  nodes from the top whose depth is the depth of \<open>t\<close> and pushes one Branch holding
  them in pop order, the former top first; the rest of the stack is untouched. The
  tokens x, y, z, ^ on a fresh evaluator leave one Branch with the children z, y, x.
\<close>

theorem PackTopSameLevel_collects_top_first:
  "PackTopSameLevel (ev\<lparr>Data := t # stack\<rparr>) =
     Returns (ev\<lparr>Data := Branch (t # takeWhile (\<lambda>n. Depth n = Depth t) stack)
                          # dropWhile (\<lambda>n. Depth n = Depth t) stack\<rparr>) \<and>
   EvalComs [''x'', ''y'', ''z'', ''^''] (LoadDefault (new_Evaluator lvl)) =
     Returns ((LoadDefault (new_Evaluator lvl))
                \<lparr>Data := [Branch [Value ''z'', Value ''y'', Value ''x'']]\<rparr>)"
proof -
  have "PackTopSameLevel (ev\<lparr>Data := t # stack\<rparr>) =
     Returns (ev\<lparr>Data := Branch (t # takeWhile (\<lambda>n. Depth n = Depth t) stack)
                          # dropWhile (\<lambda>n. Depth n = Depth t) stack\<rparr>)"
    by (simp add: PackTopSameLevel_def PackTopSameLevel_loop_eq push_def)
  moreover have "EvalComs [''x'', ''y'', ''z'', ''^''] (LoadDefault (new_Evaluator lvl)) =
     Returns ((LoadDefault (new_Evaluator lvl))
                \<lparr>Data := [Branch [Value ''z'', Value ''y'', Value ''x'']]\<rparr>)"
    by (simp add: EvalComs_def EvalComs_loop.simps EvalCom_def Functions_LoadDefault push_def
        LoadDefault_fields new_Evaluator_fields PackTopSameLevel_def)
  ultimately show ?thesis by simp
qed

subsection \<open>Round trips\<close>

text \<open>
  C3. For every evaluator state and every \<open>c\<close> up to the size of its stack: pushing the
  leaf that holds the decimal numeral of \<open>c\<close>, then \<^verbatim>\<open>PackTopX\<close> ("^tc"), then
  \<^verbatim>\<open>UnpackTop\<close> ("^_t") returns normally, in the state before the push: the same
  nodes in the same order, and nothing else changed.
\<close>

theorem PackTopX_UnpackTop_roundtrip:
  assumes "c \<le> length (Data ev)"
  shows "and_then (PackTopX (push (Value (digits_of c)) ev)) UnpackTop = Returns ev"
proof -
  define k where "k = saturate (int c)"
  have k: "0 \<le> k" "nat k \<le> length (Data ev)" "size_t_of_int k = nat k"
    using saturate_nat [of c] assms saturate_le [of "int c"]
    by (simp_all add: k_def size_t_of_int_small)
  have "PackTopX (push (Value (digits_of c)) ev) =
          Returns (ev\<lparr>Data := Branch (rev (take (nat k) (Data ev))) # drop (nat k) (Data ev)\<rparr>)"
    using k
    by (simp add: PackTopX_def RequireValueTop_def RequireTop_def RequireValue_def is_value_def
        push_def pop_def size_t_of_int_def ReadAs_int_digits_of Branch_taken_def flip: k_def)
  moreover have
    "UnpackTop (ev\<lparr>Data := Branch (rev (take (nat k) (Data ev))) # drop (nat k) (Data ev)\<rparr>) =
       Returns ev"
    by (simp add: UnpackTop_def RequireBranchTop_def RequireTop_def RequireBranch_def
        is_branch_def size_t_of_int_def pop_def Unpack_eq)
  ultimately show ?thesis by (simp add: and_then_def)
qed

text \<open>C3, witness: a count of 2 on a stack of three nodes.\<close>

theorem PackTopX_UnpackTop_roundtrip_witness:
  "and_then (PackTopX (push (Value (digits_of 2))
       ((new_Evaluator Warning)\<lparr>Data := [Value ''z'', Branch [Value ''y''], Value ''x'']\<rparr>)))
     UnpackTop =
   Returns ((new_Evaluator Warning)\<lparr>Data := [Value ''z'', Branch [Value ''y''], Value ''x'']\<rparr>)"
  using PackTopX_UnpackTop_roundtrip
    [of 2 "(new_Evaluator Warning)\<lparr>Data := [Value ''z'', Branch [Value ''y''], Value ''x'']\<rparr>"]
  by simp




subsection \<open>Column extraction\<close>

text \<open>
  C7, as the code has it. With the index leaf on top, the depth leaf beneath it and a
  Branch beneath that, \<^verbatim>\<open>ExtractColumnPack\<close> pops the two leaves. A depth below 1
  throws the error "Cannot extract from zero depth". Otherwise the levels are counted
  from the root Branch as level 1: the output holds, in depth-first order, a clone of the
  child at position \<open>index\<close> of every Branch at nesting distance \<open>depth - 1\<close> from the
  root that has such a child, and nothing for a Branch that has none; the output Branch
  is pushed on top of the traversed Branch, which stays on the stack.
\<close>

theorem ExtractColumnPack_levels_from_one:
  assumes "ReadAs_int si = Some index" and "ReadAs_int sd = Some depth"
  shows "ExtractColumnPack (ev\<lparr>Data := Value si # Value sd # Branch bs # rest\<rparr>) =
     (if depth < 1
      then Throws (ThrowWraped ''Cannot extract from zero depth'' Critical)
             (ev\<lparr>Data := Branch bs # rest\<rparr>)
      else Returns (ev\<lparr>Data :=
             Branch (column_at_distance (size_t_of_int index) (nat depth - 1) (Branch bs))
               # Branch bs # rest\<rparr>))"
proof (cases "depth < 1")
  case True
  then show ?thesis
    using assms
    by (simp add: ExtractColumnPack_def RequireValueTop_def RequireTop_def RequireValue_def
        is_value_def pop_def size_t_of_int_def)
next
  case False
  then have d: "size_t_of_int depth = nat depth" "1 \<le> size_t_of_int depth"
    using ReadAs_int_range [OF assms(2)] by (simp_all add: size_t_of_int_small)
  show ?thesis
    using assms False ExtractColumnPack_loop_root [OF d(2), of index bs]
    by (simp add: ExtractColumnPack_def RequireValueTop_def RequireBranchTop_def RequireTop_def
        RequireValue_def RequireBranch_def is_value_def is_branch_def pop_def push_def d(1))
       (simp add: size_t_of_int_def)
qed

text \<open>C7, witness: depth 2 and index 0 over a root with two rows, a leaf and an empty
  Branch.\<close>

theorem ExtractColumnPack_levels_from_one_witness:
  "ExtractColumnPack ((new_Evaluator Warning)\<lparr>Data :=
       [Value ''0'', Value ''2'',
        Branch [Branch [Value ''a'', Value ''b''], Value ''z'', Branch [],
                Branch [Value ''c'', Value ''d'']]]\<rparr>) =
     Returns ((new_Evaluator Warning)\<lparr>Data :=
       [Branch [Value ''a'', Value ''c''],
        Branch [Branch [Value ''a'', Value ''b''], Value ''z'', Branch [],
                Branch [Value ''c'', Value ''d'']]]\<rparr>)"
proof -
  have i: "ReadAs_int ''0'' = Some 0"
    by (rule ReadAs_int_0)
  have d: "ReadAs_int ''2'' = Some 2"
    by (simp add: ReadAs_int_def isspace_def isdigit_def decimal_def digit_val_def saturate_def
        INT_MAX_def INT_MIN_def)
  have one: "nat 2 - 1 = Suc 0"
    by simp
  show ?thesis
    using ExtractColumnPack_levels_from_one [OF i d, where ev = "new_Evaluator Warning"
        and bs = "[Branch [Value ''a'', Value ''b''], Value ''z'', Branch [],
                   Branch [Value ''c'', Value ''d'']]"
        and rest = "[]"]
    by (simp add: one size_t_of_int_def)
qed

text \<open>
  C7, counterexample to the claim as stated. With depth 1 and index 0 over a root that
  holds two rows, the Branches at nesting distance 1 from the root are the two rows, and
  their children at position 0 are the leaves a and c; the code instead takes the root
  itself as the level-1 Branch and outputs a clone of the first row.
\<close>

theorem ExtractColumnPack_distance_counterexample:
  "ExtractColumnPack ((new_Evaluator Warning)\<lparr>Data :=
       [Value ''0'', Value ''1'',
        Branch [Branch [Value ''a'', Value ''b''], Branch [Value ''c'', Value ''d'']]]\<rparr>) =
     Returns ((new_Evaluator Warning)\<lparr>Data :=
       [Branch [Branch [Value ''a'', Value ''b'']],
        Branch [Branch [Value ''a'', Value ''b''], Branch [Value ''c'', Value ''d'']]]\<rparr>) \<and>
   column_at_distance 0 1
       (Branch [Branch [Value ''a'', Value ''b''], Branch [Value ''c'', Value ''d'']]) =
     [Value ''a'', Value ''c''] \<and>
   ExtractColumnPack ((new_Evaluator Warning)\<lparr>Data :=
       [Value ''0'', Value ''1'',
        Branch [Branch [Value ''a'', Value ''b''], Branch [Value ''c'', Value ''d'']]]\<rparr>) \<noteq>
     Returns ((new_Evaluator Warning)\<lparr>Data :=
       [Branch (column_at_distance 0 1
          (Branch [Branch [Value ''a'', Value ''b''], Branch [Value ''c'', Value ''d'']])),
        Branch [Branch [Value ''a'', Value ''b''], Branch [Value ''c'', Value ''d'']]]\<rparr>)"
  by (simp add: ExtractColumnPack_def RequireValueTop_def RequireBranchTop_def RequireTop_def
      RequireValue_def RequireBranch_def is_value_def is_branch_def pop_def push_def
      size_t_of_int_def ReadAs_int_0 ReadAs_int_1 ExtractColumnPack_loop.simps new_Evaluator_def)

subsection \<open>The structural validator\<close>

text \<open>
  C8 (the code departs from the claim). \<^verbatim>\<open>Require\<close> pushes the root Branch but no
  cursor, so the first opcode reads the top of an empty cursor stack: no call of
  \<^verbatim>\<open>Require\<close> returns normally, and the pattern "b" on a Branch that holds a
  Branch is undefined behaviour. And one turn of the loop handles the character twice,
  before the \<^verbatim>\<open>switch\<close> and in it: started with a cursor at the first child, a
  single b descends two levels and pushes two cursors.
\<close>

theorem Require_has_no_start_cursor_and_descends_twice:
  "Require request br \<noteq> Returns s \<and>
   Require ''b'' (Branch [Branch []]) = Undefined \<and>
   Require_step CHR ''b'' ([Branch [Branch [Branch [Value ''a'']], Value ''k'']], [0]) =
     Returns ([Branch [Value ''a''], Branch [Branch [Value ''a'']],
               Branch [Branch [Branch [Value ''a'']], Value ''k'']], [0, 1, 1])"
proof -
  have "Require_loop request 0 ([br], []) \<noteq> Returns s"
    using Require_step_no_cursor [of "request_at request 0" "[br]"]
    by (subst Require_loop.simps) (simp split: outcome.splits)
  then have "Require request br \<noteq> Returns s"
    by (simp add: Require_def split: option.splits)
  moreover have "Require ''b'' (Branch [Branch []]) = Undefined"
    by (simp add: Require_def RequireBranch_def is_branch_def Require_loop.simps request_at_def
        Require_step_def Require_b_def Require_current_def)
  moreover have
    "Require_step CHR ''b'' ([Branch [Branch [Branch [Value ''a'']], Value ''k'']], [0]) =
       Returns ([Branch [Value ''a''], Branch [Branch [Value ''a'']],
                 Branch [Branch [Branch [Value ''a'']], Value ''k'']], [0, 1, 1])"
    by (simp add: Require_step_def Require_b_def Require_current_def RequireBranch_def
        is_branch_def)
  ultimately show ?thesis by simp
qed

subsection \<open>Batches\<close>

text \<open>
  C9 (the code departs from the claim). The trace loop of \<^verbatim>\<open>EvalComs\<close> writes
  \<^verbatim>\<open>coms[i]\<close>, the failing token, once per executed token instead of the tokens
  \<^verbatim>\<open>coms[j]\<close>: the trace of every batch is the failing token repeated. For the batch
  hello, ^_t the logged message ends in the trace "^_t, ^_t" and the token hello is not in
  it; the error is then thrown again and the batch ends.
\<close>

theorem EvalComs_trace_repeats_failing_token:
  "com_trace coms i = concat (replicate (Suc i) ([CHR 0x09] @ coms ! i @ [CHR 0x0A])) \<and>
   EvalComs [''hello'', ''^_t''] (LoadDefault (new_Evaluator Warning)) =
     Throws (ThrowWraped ''Value as branch argument'' Critical)
       ((LoadDefault (new_Evaluator Warning))
          \<lparr>Data := [Value ''hello''],
           Log := [''Execution engine exceptionValue as branch argument'' @ [CHR 0x0A]
                   @ ''Caused during invoking:^_t'' @ [CHR 0x0A] @ ''Com trace:''
                   @ [CHR 0x09] @ ''^_t'' @ [CHR 0x0A] @ [CHR 0x09] @ ''^_t'' @ [CHR 0x0A]]\<rparr>) \<and>
   com_trace [''hello'', ''^_t''] 1 \<noteq> trace_so_far [''hello'', ''^_t''] 1"
proof -
  have "EvalComs [''hello'', ''^_t''] (LoadDefault (new_Evaluator Warning)) =
     Throws (ThrowWraped ''Value as branch argument'' Critical)
       ((LoadDefault (new_Evaluator Warning))
          \<lparr>Data := [Value ''hello''],
           Log := [''Execution engine exceptionValue as branch argument'' @ [CHR 0x0A]
                   @ ''Caused during invoking:^_t'' @ [CHR 0x0A] @ ''Com trace:''
                   @ [CHR 0x09] @ ''^_t'' @ [CHR 0x0A] @ [CHR 0x09] @ ''^_t'' @ [CHR 0x0A]]\<rparr>) \<and>
   com_trace [''hello'', ''^_t''] 1 \<noteq> trace_so_far [''hello'', ''^_t''] 1"
    by (simp add: EvalComs_def EvalComs_loop.simps EvalCom_def Functions_LoadDefault push_def
        LoadDefault_fields new_Evaluator_fields UnpackTop_def RequireBranchTop_def RequireTop_def
        RequireBranch_def is_branch_def size_t_of_int_def ErrorLevel_ThrowWraped Level_gt_def
        caused_during_def com_trace_def what_ThrowWraped trace_so_far_def)
  then show ?thesis using com_trace_replicate [of coms i] by simp
qed

subsection \<open>Duplicate\<close>

text \<open>
  C10. With the leaf "0" or the leaf "1" on top and a node \<open>n\<close> beneath it,
  \<^verbatim>\<open>Duplicate\<close> pops the count and pushes nothing: \<open>n\<close> is the new top, once, and
  the rest of the stack and of the evaluator is unchanged.
\<close>

theorem Duplicate_count_below_two:
  "Duplicate (ev\<lparr>Data := Value ''0'' # n # rest\<rparr>) = Returns (ev\<lparr>Data := n # rest\<rparr>) \<and>
   Duplicate (ev\<lparr>Data := Value ''1'' # n # rest\<rparr>) = Returns (ev\<lparr>Data := n # rest\<rparr>)"
  by (simp add: Duplicate_def RequireIntegerTop_def RequireTop_def RequireInteger_def
      RequireValue_def is_value_def IsEmpty_def isdigit_def size_t_of_int_def pop_def
      ReadAs_int_0 ReadAs_int_1 Duplicate_loop.simps [of 1 0] Duplicate_loop.simps [of 1 1])

subsection \<open>Ownership of the objects on the stack\<close>

declare Duplicate_loop_obj.simps [simp del] ExtractColumnPack_loop_obj.simps [simp del]
  ExtractGroupedColumnPack_loop_obj.simps [simp del] 

lemma distinct_submultiset: "mset ys \<subseteq># mset xs \<Longrightarrow> distinct xs \<Longrightarrow> distinct ys"
proof -
  assume sub: "mset ys \<subseteq># mset xs" and d: "distinct xs"
  have "count (mset ys) a \<le> 1" for a
  proof -
    have "count (mset ys) a \<le> count (mset xs) a" using sub by (rule mset_subset_eq_count)
    also have "\<dots> \<le> 1" using d by (simp add: distinct_count_atmost_1)
    finally show ?thesis .
  qed
  then have one: "count (mset ys) a = (if a \<in> set ys then 1 else 0)" for a
    using count_mset_0_iff [of ys a] by (cases "count (mset ys) a = 0") (auto simp: le_Suc_eq)
  show "distinct ys"
    unfolding distinct_count_atmost_1 using one by blast
qed

lemma objects_of_simps [simp]:
  "objects_of [] = []"
  "objects_of (x # xs) = objects x @ objects_of xs"
  "objects_of (xs @ ys) = objects_of xs @ objects_of ys"
  by (simp_all add: objects_of_def)

lemma objects_BranchObj [simp]: "objects (BranchObj a cs) = a # objects_of cs"
  by (simp add: objects_of_def)

declare objects.simps(2) [simp del]

lemma mset_objects_of: "mset (objects_of xs) = (\<Sum>x\<in>#mset xs. mset (objects x))"
  by (induction xs) simp_all

lemma objects_of_mono: "mset xs \<subseteq># mset ys \<Longrightarrow> mset (objects_of xs) \<subseteq># mset (objects_of ys)"
proof -
  assume "mset xs \<subseteq># mset ys"
  then obtain zs where "mset ys = mset xs + zs" by (metis subset_mset.le_iff_add)
  then show ?thesis by (simp add: mset_objects_of)
qed

lemma objects_of_perm: "mset xs = mset ys \<Longrightarrow> mset (objects_of xs) = mset (objects_of ys)"
  by (simp add: mset_objects_of)

lemma exclusive_step:
  assumes "exclusive m" and "Fresh m \<le> n"
    and "mset (objects_of st) \<subseteq># mset (objects_of (Stack m)) + mset [Fresh m..<n]"
  shows "exclusive (m\<lparr>Stack := st, Fresh := n\<rparr>)"
proof -
  let ?old = "objects_of (Stack m)"
  have old: "distinct ?old" "\<forall>a\<in>set ?old. a < Fresh m"
    using assms(1) by (simp_all add: exclusive_def list_all_iff)
  then have d: "distinct (?old @ [Fresh m..<n])" by auto
  have sub: "mset (objects_of st) \<subseteq># mset (?old @ [Fresh m..<n])" using assms(3) by simp
  have "distinct (objects_of st)" using distinct_submultiset [OF sub d] .
  moreover have "set (objects_of st) \<subseteq> set (?old @ [Fresh m..<n])"
    using set_mset_mono [OF sub] by simp
  then have "\<forall>a\<in>set (objects_of st). a < n" using old(2) assms(2) by fastforce
  ultimately show ?thesis by (simp add: exclusive_def list_all_iff)
qed

lemma exclusive_substack:
  assumes "exclusive m" and "mset st \<subseteq># mset (Stack m)"
  shows "exclusive (m\<lparr>Stack := st\<rparr>)"
proof -
  have "mset (objects_of st) \<subseteq># mset (objects_of (Stack m)) + mset [Fresh m..<Fresh m]"
    using objects_of_mono [OF assms(2)] by simp
  from exclusive_step [OF assms(1) le_refl this] show ?thesis by simp
qed

lemma mset_tl_subset: "mset (tl xs) \<subseteq># mset xs"
  by (cases xs) simp_all

lemma exclusive_pop: "exclusive m \<Longrightarrow> exclusive (pop_obj m)"
  unfolding pop_obj_def
  by (rule exclusive_substack) (simp_all add: mset_tl_subset)

lemma Copy_obj_fresh:
  "Copy_obj x n = (x', n') \<Longrightarrow> n < n' \<and> objects x' = [n..<n']"
  "Copy_objs xs n = (xs', n'') \<Longrightarrow> n \<le> n'' \<and> objects_of xs' = [n..<n'']"
proof (induction x n and xs n arbitrary: x' n' and xs' n'' rule: Copy_obj_Copy_objs.induct)
  case (1 a s n)
  then show ?case by (auto simp: upt_rec)
next
  case (2 a cs n)
  obtain cs' k where c: "Copy_objs cs (Suc n) = (cs', k)" by force
  with 2 have "Suc n \<le> k" "objects_of cs' = [Suc n..<k]" by auto
  moreover have "x' = BranchObj n cs'" "n' = k" using "2.prems" c by auto
  ultimately show ?case by (simp add: upt_conv_Cons)
next
  case (3 n)
  then show ?case by auto
next
  case (4 c cs n)
  obtain c' n1 where c: "Copy_obj c n = (c', n1)" by force
  obtain cs' n2 where cs: "Copy_objs cs n1 = (cs', n2)" by force
  have 1: "n < n1" "objects c' = [n..<n1]" using "4.IH"(1) [OF c] by auto
  have 2: "n1 \<le> n2" "objects_of cs' = [n1..<n2]" using "4.IH"(2) [OF c [symmetric] cs] by auto
  have "xs' = c' # cs'" "n'' = n2" using "4.prems" c cs by auto
  moreover have "[n..<n1] @ [n1..<n2] = [n..<n2]"
    using 1(1) 2(1) upt_add_eq_append [of n n1 "n2 - n1"] by simp
  ultimately show ?case using 1 2 by simp
qed

lemma kept_simps [simp]:
  "kept (Returns m) = exclusive m" "kept (Throws e m) = exclusive m"
  "kept (Throws_std x m) = exclusive m" "kept Undefined"
  by (simp_all add: kept_def)

lemma mset_take_drop: "mset (take k xs) + mset (drop k xs) = mset xs"
  by (metis append_take_drop_id mset_append)

lemma exclusive_push_new_Value: "exclusive m \<Longrightarrow> exclusive (push_new_Value s m)"
  unfolding push_new_Value_def
  by (rule exclusive_step) simp_all

lemma exclusive_pack:
  assumes "exclusive m" and "mset (cs @ rest) \<subseteq># mset (Stack m)"
  shows "exclusive (push_new_Branch cs (m\<lparr>Stack := rest\<rparr>))"
proof -
  have "mset (objects_of (cs @ rest)) \<subseteq># mset (objects_of (Stack m))"
    using assms(2) by (rule objects_of_mono)
  then have "mset (objects_of (BranchObj (Fresh m) cs # rest))
               \<subseteq># mset (objects_of (Stack m)) + mset [Fresh m..<Suc (Fresh m)]"
    by simp
  from exclusive_step [OF assms(1) _ this] show ?thesis
    by (simp add: push_new_Branch_def)
qed

lemma exclusive_push_Copy: "exclusive m \<Longrightarrow> exclusive (push_Copy x m)"
proof -
  assume ex: "exclusive m"
  obtain x' n where c: "Copy_obj x (Fresh m) = (x', n)" by force
  from Copy_obj_fresh(1) [OF c] have f: "Fresh m < n" "objects x' = [Fresh m..<n]" by auto
  have "mset (objects_of (x' # Stack m)) \<subseteq># mset (objects_of (Stack m)) + mset [Fresh m..<n]"
    using f(2) by simp
  from exclusive_step [OF ex _ this] f(1) show ?thesis
    by (simp add: push_Copy_def c)
qed

lemma update_at_absent: "a \<notin> set (objects t) \<Longrightarrow> update_at a f t = t"
  by (induction t) (auto intro: map_idI simp: objects_of_def)

lemma update_at_root: "update_at (Address t) f t = f t"
  by (cases t) simp_all

lemma Address_in_objects: "Address t \<in> set (objects t)"
  by (cases t) simp_all

lemma in_objects_of: "a \<in> set (objects_of xs) \<longleftrightarrow> (\<exists>x\<in>set xs. a \<in> set (objects x))"
  by (simp add: objects_of_def)

lemma update_stack_absent: "a \<notin> set (objects_of st) \<Longrightarrow> map (update_at a f) st = st"
  by (rule map_idI) (simp add: in_objects_of update_at_absent)

lemma update_top:
  assumes "exclusive m" and "Stack m = t # rest"
  shows "map (update_at (Address t) f) (Stack m) = f t # rest"
proof -
  have "distinct (objects t @ objects_of rest)" using assms by (simp add: exclusive_def)
  then have "Address t \<notin> set (objects_of rest)" using Address_in_objects [of t] by auto
  then show ?thesis by (simp add: assms(2) update_at_root update_stack_absent)
qed

lemma Require_obj_nonempty:
  "RequireTop_obj 1 m = None \<Longrightarrow> \<exists>t rest. Stack m = t # rest"
  "RequireValueTop_obj m = None \<Longrightarrow> \<exists>a s rest. Stack m = ValueObj a s # rest"
  "RequireIntegerTop_obj m = None \<Longrightarrow> \<exists>a s rest. Stack m = ValueObj a s # rest"
  "RequireBranchTop_obj m = None \<Longrightarrow> \<exists>a cs rest. Stack m = BranchObj a cs # rest"
proof -
  show top: "\<exists>t rest. Stack m = t # rest" if "RequireTop_obj 1 m = None"
    using that by (cases "Stack m") (simp_all add: RequireTop_obj_def size_t_of_int_def)
  show "\<exists>a s rest. Stack m = ValueObj a s # rest" if "RequireValueTop_obj m = None"
  proof -
    from that obtain t rest where st: "Stack m = t # rest"
      using top by (auto simp: RequireValueTop_obj_def split: option.splits)
    with that show ?thesis
      by (cases t) (auto simp: RequireValueTop_obj_def RequireValue_def is_value_def split: option.splits)
  qed
  show "\<exists>a s rest. Stack m = ValueObj a s # rest" if "RequireIntegerTop_obj m = None"
  proof -
    from that obtain t rest where st: "Stack m = t # rest"
      using top by (auto simp: RequireIntegerTop_obj_def split: option.splits)
    with that show ?thesis
      by (cases t) (auto simp: RequireIntegerTop_obj_def RequireInteger_def RequireValue_def
          is_value_def split: option.splits if_splits)
  qed
  show "\<exists>a cs rest. Stack m = BranchObj a cs # rest" if "RequireBranchTop_obj m = None"
  proof -
    from that obtain t rest where st: "Stack m = t # rest"
      using top by (auto simp: RequireBranchTop_obj_def split: option.splits)
    with that show ?thesis
      by (cases t) (auto simp: RequireBranchTop_obj_def RequireBranch_def is_branch_def split: option.splits)
  qed
qed

lemma PackTop_obj_kept: "exclusive m \<Longrightarrow> kept (PackTop_obj m)"
  by (simp add: PackTop_obj_def exclusive_pack mset_take_drop)

lemma PackTopSameLevel_loop_obj_eq:
  "PackTopSameLevel_loop_obj d br stack =
     (br @ takeWhile (\<lambda>n. Depth (erase n) = d) stack, dropWhile (\<lambda>n. Depth (erase n) = d) stack)"
  by (induction stack arbitrary: br) simp_all

lemma PackTopSameLevel_obj_kept: "exclusive m \<Longrightarrow> kept (PackTopSameLevel_obj m)"
  by (cases "Stack m") (simp_all add: PackTopSameLevel_obj_def PackTopSameLevel_loop_obj_eq
      exclusive_pack flip: mset_append)

lemma PackTopX_obj_kept: "exclusive m \<Longrightarrow> kept (PackTopX_obj m)"
  by (auto simp: PackTopX_obj_def Let_def exclusive_pop exclusive_pack mset_take_drop
      split: option.splits)

lemma EmptyBranch_obj_kept: "exclusive m \<Longrightarrow> kept (EmptyBranch_obj m)"
  using exclusive_pack [of m "[]" "Stack m"] by (simp add: EmptyBranch_obj_def)

lemma EmptyElement_obj_kept: "exclusive m \<Longrightarrow> kept (EmptyElement_obj m)"
  by (simp add: EmptyElement_obj_def exclusive_push_new_Value)

lemma CopyFromIndex_obj_kept: "exclusive m \<Longrightarrow> kept (CopyFromIndex_obj m)"
  by (auto simp: CopyFromIndex_obj_def Let_def exclusive_pop exclusive_push_Copy
      split: option.splits)

lemma Evaluator_Copy_obj_kept: "exclusive m \<Longrightarrow> kept (Evaluator_Copy_obj m)"
  by (auto simp: Evaluator_Copy_obj_def exclusive_push_Copy split: option.splits)

lemma lambda_pop_obj_kept: "exclusive m \<Longrightarrow> kept (lambda_pop_obj m)"
  using exclusive_pop [of m] by (cases "Stack m") (simp_all add: lambda_pop_obj_def pop_obj_def)

lemma Duplicate_loop_obj_exclusive:
  "exclusive m \<Longrightarrow> Duplicate_loop_obj i c m = Some m' \<Longrightarrow> exclusive m'"
proof (induction i c m rule: Duplicate_loop_obj.induct)
  case (1 i c m)
  show ?case
  proof (cases "i < c")
    case True
    then obtain t rest where st: "Stack m = t # rest"
      using "1.prems"(2) by (cases "Stack m") (simp_all add: Duplicate_loop_obj.simps [of i c m])
    then have "Duplicate_loop_obj (i + 1) c (push_Copy t m) = Some m'"
      using "1.prems"(2) True by (simp add: Duplicate_loop_obj.simps [of i c m])
    with "1.IH" [OF True st] "1.prems"(1) show ?thesis by (simp add: exclusive_push_Copy)
  next
    case False
    then show ?thesis using "1.prems" by (simp add: Duplicate_loop_obj.simps [of i c m])
  qed
qed

lemma Duplicate_obj_kept: "exclusive m \<Longrightarrow> kept (Duplicate_obj m)"
  by (auto simp: Duplicate_obj_def exclusive_pop split: option.splits
      dest: Duplicate_loop_obj_exclusive [rotated])

lemma move_top_mset:
  "move_top k src dst = Some (src', dst') \<Longrightarrow> mset src' + mset dst' = mset src + mset dst"
  by (induction k src dst rule: move_top.induct) auto

lemma DeepRemove_obj_kept:
  assumes "exclusive m"
  shows "kept (DeepRemove_obj m)"
proof -
  have "exclusive ((pop_obj m)\<lparr>Stack := stack'\<rparr>)"
    if 1: "move_top k (Stack (pop_obj m)) [] = Some (x # stack, tmp)"
      and 2: "move_top k tmp stack = Some (y, stack')" for k x stack tmp y stack'
  proof -
    have "mset (x # stack) + mset tmp = mset (Stack (pop_obj m))"
      using move_top_mset [OF 1] by simp
    moreover have "mset y + mset stack' = mset tmp + mset stack"
      using move_top_mset [OF 2] .
    ultimately have "mset stack' \<subseteq># mset (Stack (pop_obj m))"
      by (metis add_mset_add_single mset.simps(2) mset_subset_eq_add_right subset_mset.dual_order.trans
          union_commute union_mset_add_mset_left mset_subset_eq_add_left)
    then show ?thesis using exclusive_pop [OF assms] by (rule exclusive_substack [rotated])
  qed
  then show ?thesis
    using assms
    by (auto simp: DeepRemove_obj_def Let_def exclusive_pop split: option.splits list.splits)
qed

lemma Unpack_obj_fresh:
  "Unpack_obj bs stack n = (stack', n') \<Longrightarrow>
     n \<le> n' \<and> mset (objects_of stack') = mset (objects_of stack) + mset [n..<n']"
proof (induction bs stack n arbitrary: stack' n' rule: Unpack_obj.induct)
  case (1 stack n)
  then show ?case by simp
next
  case (2 i bs stack n)
  obtain i' k where c: "Copy_obj i n = (i', k)" by force
  from Copy_obj_fresh(1) [OF c] have f: "n < k" "objects i' = [n..<k]" by auto
  have "Unpack_obj bs (i' # stack) k = (stack', n')" using "2.prems" c by simp
  from "2.IH" [OF c [symmetric] this]
  have r: "k \<le> n'" "mset (objects_of stack') = mset (objects_of (i' # stack)) + mset [k..<n']"
    by auto
  have "[n..<k] @ [k..<n'] = [n..<n']"
    using f(1) r(1) upt_add_eq_append [of n k "n' - k"] by simp
  then have "mset [n..<k] + mset [k..<n'] = mset [n..<n']"
    by (metis mset_append)
  then show ?case using f r by (simp add: ac_simps)
qed

lemma UnpackTop_obj_kept:
  assumes "exclusive m"
  shows "kept (UnpackTop_obj m)"
proof (cases "RequireBranchTop_obj m")
  case (Some e)
  then show ?thesis using assms by (simp add: UnpackTop_obj_def)
next
  case None
  then obtain a cs rest where st: "Stack m = BranchObj a cs # rest"
    using Require_obj_nonempty(4) by blast
  obtain stack n where u: "Unpack_obj cs rest (Fresh m) = (stack, n)" by force
  from Unpack_obj_fresh [OF u]
  have f: "Fresh m \<le> n" "mset (objects_of stack) = mset (objects_of rest) + mset [Fresh m..<n]"
    by auto
  have old: "distinct (a # objects_of cs @ objects_of rest)" "a < Fresh m"
    using assms st by (simp_all add: exclusive_def)
  have "a \<notin> set (objects_of rest) \<union> set [Fresh m..<n]" using old by auto
  then have "a \<notin> set (objects_of stack)"
    using f(2) by (metis set_mset_mset set_mset_union)
  then have same: "map (update_at a clear_Branches) stack = stack"
    by (rule update_stack_absent)
  have "mset (objects_of stack) \<subseteq># mset (objects_of (Stack m)) + mset [Fresh m..<n]"
    using f(2) st by simp
  from exclusive_step [OF assms f(1) this]
  show ?thesis
    using None st u same by (simp add: UnpackTop_obj_def pop_obj_def)
qed

lemma Undot_obj_kept:
  assumes "exclusive m"
  shows "kept (Undot_obj m)"
proof (cases "RequireValueTop_obj m")
  case (Some e)
  then show ?thesis using assms by (simp add: Undot_obj_def)
next
  case None
  then obtain a s rest where st: "Stack m = ValueObj a s # rest"
    using Require_obj_nonempty(2) by blast
  have "mset (objects_of (ValueObj a s' # rest)) \<subseteq>#
          mset (objects_of (Stack m)) + mset [Fresh m..<Fresh m]" for s'
    using st by simp
  from exclusive_step [OF assms le_refl this]
  show ?thesis
    using None st update_top [OF assms st] by (simp add: Undot_obj_def Let_def)
qed

lemma Reverse_loop_mset: "mset (Reverse_loop i v) = mset v"
proof (induction i v rule: Reverse_loop.induct)
  case (1 i v)
  show ?case
  proof (cases "i < length v div 2")
    case True
    then have "i < length v" "length v - 1 - i < length v" by auto
    then have "mset (v[i := v ! (length v - 1 - i), length v - 1 - i := v ! i]) = mset v"
      by (simp add: mset_swap)
    then show ?thesis using "1.IH" [OF True] True by (simp add: Reverse_loop.simps [of i v])
  next
    case False
    then show ?thesis by (simp add: Reverse_loop.simps [of i v])
  qed
qed

lemma Reverse_obj_kept:
  assumes "exclusive m"
  shows "kept (Reverse_obj m)"
proof (cases "RequireTop_obj 1 m")
  case (Some e)
  then show ?thesis using assms by (simp add: Reverse_obj_def)
next
  case None
  then obtain t rest where st: "Stack m = t # rest"
    using Require_obj_nonempty(1) by blast
  let ?f = "\<lambda>x. if is_value (erase x) then ValueObj (Address x) (Reverse_loop 0 (Text x))
                 else BranchObj (Address x) (Reverse_loop 0 (Children x))"
  have "mset (objects (?f t)) = mset (objects t)"
    by (cases t) (simp_all add: is_value_def objects_of_perm [OF Reverse_loop_mset])
  then have "mset (objects_of (?f t # rest)) \<subseteq>#
          mset (objects_of (Stack m)) + mset [Fresh m..<Fresh m]"
    using st by simp
  from exclusive_step [OF assms le_refl this]
  show ?thesis
    using None st update_top [OF assms st, of ?f] by (simp add: Reverse_obj_def Let_def)
qed

lemma upt_join: "n \<le> k \<Longrightarrow> k \<le> n' \<Longrightarrow> mset [n..<k] + mset [k..<n'] = mset [n..<n']"
  using upt_add_eq_append [of n k "n' - k"] by (metis le_add_diff_inverse mset_append)

lemma ExtractColumnPack_loop_obj_fresh:
  "ExtractColumnPack_loop_obj index depth br cp nbranch n = Some (nb, n') \<Longrightarrow>
     n \<le> n' \<and> mset (objects_of nb) = mset (objects_of nbranch) + mset [n..<n']"
proof (induction index depth br cp nbranch n arbitrary: nb n'
    rule: ExtractColumnPack_loop_obj.induct)
  case (1 index depth cp nbranch n)
  then show ?case by (simp add: ExtractColumnPack_loop_obj.simps)
next
  case (2 index depth b br nbranch n)
  then show ?case by (simp add: ExtractColumnPack_loop_obj.simps)
next
  case (3 index depth b br c cp nbranch n)
  note run = "3.prems" [unfolded ExtractColumnPack_loop_obj.simps(3) [of index depth b br c cp nbranch n]]
  show ?case
  proof (cases "length (Children b) \<le> c")
    case True
    then show ?thesis using "3.IH"(1) run by simp
  next
    case inside: False
    show ?thesis
    proof (cases "length (b # br) = size_t_of_int depth")
      case at: True
      show ?thesis
      proof (cases "size_t_of_int index < length (Children b)")
        case has: True
        obtain x k where c: "Copy_obj (Children b ! size_t_of_int index) n = (x, k)" by force
        from Copy_obj_fresh(1) [OF c] have f: "n < k" "objects x = [n..<k]" by auto
        have "ExtractColumnPack_loop_obj index depth br cp (nbranch @ [x]) k = Some (nb, n')"
          using run inside at has c by simp
        from "3.IH"(2) [OF inside at has c [symmetric] this]
        have r: "k \<le> n'" "mset (objects_of nb) = mset (objects_of (nbranch @ [x])) + mset [k..<n']"
          by auto
        show ?thesis using f r upt_join [of n k n'] by (simp add: ac_simps)
      next
        case False
        then show ?thesis using "3.IH"(3) run inside at by simp
      qed
    next
      case deeper: False
      show ?thesis
      proof (cases "is_branch (erase (Children b ! c))")
        case True
        then show ?thesis using "3.IH"(4) run inside deeper by simp
      next
        case False
        then show ?thesis using "3.IH"(5) run inside deeper by simp
      qed
    qed
  qed
qed

lemma ExtractColumnPack_obj_kept:
  assumes "exclusive m"
  shows "kept (ExtractColumnPack_obj m)"
proof -
  have "exclusive (m2\<lparr>Stack := BranchObj (Fresh m2) nb # Stack m2, Fresh := n\<rparr>)"
    if ex: "exclusive m2"
      and run: "ExtractColumnPack_loop_obj index depth br cp [] (Suc (Fresh m2)) = Some (nb, n)"
    for m2 index depth br cp nb n
  proof -
    from ExtractColumnPack_loop_obj_fresh [OF run]
    have f: "Suc (Fresh m2) \<le> n" "mset (objects_of nb) = mset [Suc (Fresh m2)..<n]" by auto
    then have "mset (objects_of (BranchObj (Fresh m2) nb # Stack m2)) \<subseteq>#
            mset (objects_of (Stack m2)) + mset [Fresh m2..<n]"
      by (simp add: upt_conv_Cons)
    from exclusive_step [OF ex _ this] f(1) show ?thesis by simp
  qed
  then show ?thesis
    using assms
    by (auto simp: ExtractColumnPack_obj_def Let_def exclusive_pop split: option.splits)
qed

lemma push_back_obj_objects:
  "distinct (objects t) \<Longrightarrow>
     mset (objects (push_back_obj p x t)) \<subseteq># mset (objects t) + mset (objects x)"
proof (induction t)
  case (ValueObj b s)
  then show ?case by (simp add: push_back_obj_def)
next
  case (BranchObj b cs)
  let ?u = "push_back_obj p x"
  show ?case
  proof (cases "p = b")
    case True
    then show ?thesis by (simp add: push_back_obj_def)
  next
    case False
    have d: "distinct (objects_of cs)" using BranchObj.prems by simp
    have "mset (objects_of (map ?u cs)) \<subseteq># mset (objects_of cs) + mset (objects x)"
      using d BranchObj.IH
    proof (induction cs)
      case Nil
      then show ?case by simp
    next
      case (Cons c cs)
      have dc: "distinct (objects c)" "distinct (objects_of cs)"
        "set (objects c) \<inter> set (objects_of cs) = {}"
        using Cons.prems(1) by auto
      show ?case
      proof (cases "p \<in> set (objects c)")
        case True
        then have "p \<notin> set (objects_of cs)" using dc(3) by auto
        then have "map ?u cs = cs"
          unfolding push_back_obj_def by (rule update_stack_absent)
        moreover have "mset (objects (?u c)) \<subseteq># mset (objects c) + mset (objects x)"
          using Cons.prems(2) [of c] dc(1) by simp
        ultimately show ?thesis
          by (simp add: ac_simps)
      next
        case False
        then have "?u c = c" by (simp add: push_back_obj_def update_at_absent)
        moreover have "mset (objects_of (map ?u cs)) \<subseteq># mset (objects_of cs) + mset (objects x)"
          using Cons.IH [OF dc(2)] Cons.prems(2) by simp
        ultimately show ?thesis by (simp add: ac_simps)
      qed
    qed
    moreover have "?u (BranchObj b cs) = BranchObj b (map ?u cs)"
      using False by (simp add: push_back_obj_def)
    ultimately show ?thesis by simp
  qed
qed

lemma push_back_obj_grow:
  assumes "distinct (objects t)" and "\<forall>a\<in>set (objects t). a < n"
    and "objects x = [n..<k]"
  shows "distinct (objects (push_back_obj p x t)) \<and>
         (\<forall>a\<in>set (objects (push_back_obj p x t)). a < k \<or> a < n) \<and>
         mset (objects (push_back_obj p x t)) \<subseteq># mset (objects t) + mset [n..<k]"
proof -
  have sub: "mset (objects (push_back_obj p x t)) \<subseteq># mset (objects t @ [n..<k])"
    using push_back_obj_objects [OF assms(1), of p x] assms(3) by simp
  have "distinct (objects t @ [n..<k])" using assms(1,2) by auto
  then have "distinct (objects (push_back_obj p x t))"
    using sub by (rule distinct_submultiset [rotated])
  moreover have "set (objects (push_back_obj p x t)) \<subseteq> set (objects t @ [n..<k])"
    using set_mset_mono [OF sub] by simp
  then have "\<forall>a\<in>set (objects (push_back_obj p x t)). a < k \<or> a < n"
    using assms(2) by fastforce
  ultimately show ?thesis using sub by simp
qed

lemma ExtractGroupedColumnPack_loop_obj_fresh:
  "ExtractGroupedColumnPack_loop_obj index depth br cp nbr nbranch n = Some (nb, n') \<Longrightarrow>
   distinct (objects nbranch) \<Longrightarrow> \<forall>a\<in>set (objects nbranch). a < n \<Longrightarrow>
     n \<le> n' \<and> mset (objects nb) \<subseteq># mset (objects nbranch) + mset [n..<n']"
proof (induction index depth br cp nbr nbranch n arbitrary: nb n'
    rule: ExtractGroupedColumnPack_loop_obj.induct)
  case (1 index depth cp nbr nbranch n)
  then show ?case by (simp add: ExtractGroupedColumnPack_loop_obj.simps)
next
  case (2 index depth b br nbr nbranch n)
  then show ?case by (simp add: ExtractGroupedColumnPack_loop_obj.simps)
next
  case (3 index depth b br c cp nbranch n)
  then show ?case by (simp add: ExtractGroupedColumnPack_loop_obj.simps)
next
  case (4 index depth b br c cp p nbr nbranch n)
  note run = "4.prems"(1)
    [unfolded ExtractGroupedColumnPack_loop_obj.simps(4) [of index depth b br c cp p nbr nbranch n]]
  note d = "4.prems"(2) and old = "4.prems"(3)
  have grown: "n \<le> n' \<and> mset (objects nb) \<subseteq># mset (objects nbranch) + mset [n..<n']"
    if x: "objects x = [n..<k]" and nk: "n < k"
      and ih: "distinct (objects (push_back_obj p x nbranch)) \<Longrightarrow>
               \<forall>a\<in>set (objects (push_back_obj p x nbranch)). a < k \<Longrightarrow>
               k \<le> n' \<and> mset (objects nb) \<subseteq># mset (objects (push_back_obj p x nbranch)) + mset [k..<n']"
    for x k
  proof -
    from push_back_obj_grow [OF d old x, of p]
    have g: "distinct (objects (push_back_obj p x nbranch))"
      "\<forall>a\<in>set (objects (push_back_obj p x nbranch)). a < k"
      "mset (objects (push_back_obj p x nbranch)) \<subseteq># mset (objects nbranch) + mset [n..<k]"
      using nk by auto
    from ih [OF g(1,2)]
    have r: "k \<le> n'" "mset (objects nb) \<subseteq># mset (objects (push_back_obj p x nbranch)) + mset [k..<n']"
      by auto
    have "mset (objects nb) \<subseteq># (mset (objects nbranch) + mset [n..<k]) + mset [k..<n']"
      using r(2) g(3) by (meson subset_mset.add_right_mono subset_mset.order_trans)
    then show ?thesis using r(1) nk upt_join [of n k n'] by (simp add: ac_simps)
  qed
  show ?case
  proof (cases "length (Children b) \<le> c")
    case True
    then show ?thesis using "4.IH"(1) run d old by simp
  next
    case inside: False
    show ?thesis
    proof (cases "length (b # br) = size_t_of_int depth")
      case at: True
      show ?thesis
      proof (cases "size_t_of_int index < length (Children b)")
        case has: True
        obtain x k where c: "Copy_obj (Children b ! size_t_of_int index) n = (x, k)" by force
        from Copy_obj_fresh(1) [OF c] have f: "n < k" "objects x = [n..<k]" by auto
        have next_run: "ExtractGroupedColumnPack_loop_obj index depth br cp nbr
                (push_back_obj p x nbranch) k = Some (nb, n')"
          using run inside at has c by simp
        show ?thesis
          by (rule grown [OF f(2) f(1)]) (rule "4.IH"(2) [OF inside at has c [symmetric] next_run])
      next
        case False
        then show ?thesis using "4.IH"(3) run inside at d old by simp
      qed
    next
      case deeper: False
      show ?thesis
      proof (cases "is_branch (erase (Children b ! c))")
        case True
        have next_run: "ExtractGroupedColumnPack_loop_obj index depth (Children b ! c # b # br)
             (0 # Suc c # cp) (n # p # nbr) (push_back_obj p (BranchObj n []) nbranch) (Suc n)
               = Some (nb, n')"
          using run inside deeper True by simp
        have x: "objects (BranchObj n []) = [n..<Suc n]" by simp
        show ?thesis
          by (rule grown [OF x]) (simp, rule "4.IH"(4) [OF inside deeper True next_run])
      next
        case False
        then show ?thesis using "4.IH"(5) run inside deeper d old by simp
      qed
    qed
  qed
qed

lemma ExtractGroupedColumnPack_obj_kept:
  assumes "exclusive m"
  shows "kept (ExtractGroupedColumnPack_obj m)"
proof -
  have "exclusive (m2\<lparr>Stack := nb # Stack m2, Fresh := n\<rparr>)"
    if ex: "exclusive m2"
      and run: "ExtractGroupedColumnPack_loop_obj index depth br cp nbr
                  (BranchObj (Fresh m2) []) (Suc (Fresh m2)) = Some (nb, n)"
    for m2 index depth br cp nbr nb n
  proof -
    from ExtractGroupedColumnPack_loop_obj_fresh [OF run]
    have f: "Suc (Fresh m2) \<le> n"
      "mset (objects nb) \<subseteq># mset (objects (BranchObj (Fresh m2) [])) + mset [Suc (Fresh m2)..<n]"
      by auto
    then have "mset (objects nb) \<subseteq># mset [Fresh m2..<n]"
      by (simp add: upt_conv_Cons)
    then have "mset (objects_of (nb # Stack m2)) \<subseteq>#
            mset (objects_of (Stack m2)) + mset [Fresh m2..<n]"
      by (simp add: ac_simps)
    from exclusive_step [OF ex _ this] f(1) show ?thesis by simp
  qed
  then show ?thesis
    using assms
    by (auto simp: ExtractGroupedColumnPack_obj_def Let_def exclusive_pop split: option.splits)
qed

lemma new_Values_objects: "objects_of (new_Values ss n) = [n..<n + length ss]"
proof (induction ss arbitrary: n)
  case Nil
  then show ?case by (simp add: new_Values_def)
next
  case (Cons s ss)
  have e: "[n..<n + length (s # ss)] = n # [Suc n..<Suc n + length ss]"
    by (rule trans [OF upt_conv_Cons]) simp_all
  have "new_Values (s # ss) n = ValueObj n s # new_Values ss (Suc n)"
    unfolding new_Values_def e by simp
  then show ?case using Cons [of "Suc n"] e by simp
qed

lemma SplitRow_obj_kept:
  assumes "exclusive m"
  shows "kept (SplitRow_obj m)"
proof -
  have "exclusive (m2\<lparr>Stack := BranchObj (Fresh m2) (new_Values ss (Suc (Fresh m2))) # Stack m2,
                      Fresh := Suc (Fresh m2) + length ss\<rparr>)"
    if ex: "exclusive m2" for m2 ss
  proof -
    have e: "[Fresh m2..<Suc (Fresh m2) + length ss]
               = Fresh m2 # [Suc (Fresh m2)..<Suc (Fresh m2) + length ss]"
      by (rule upt_conv_Cons) simp
    have "mset (objects_of (BranchObj (Fresh m2) (new_Values ss (Suc (Fresh m2))) # Stack m2)) \<subseteq>#
            mset (objects_of (Stack m2)) + mset [Fresh m2..<Suc (Fresh m2) + length ss]"
      unfolding e by (simp add: new_Values_objects del: mset_upt)
    from exclusive_step [OF ex _ this] show ?thesis by simp
  qed
  from this [of _ "map Stored r" for r] show ?thesis
    using assms
    by (auto simp: SplitRow_obj_def Let_def exclusive_pop split: option.splits outcome.splits)
qed

lemma ConcatRow_obj_kept: "exclusive m \<Longrightarrow> kept (ConcatRow_obj m)"
  by (auto simp: ConcatRow_obj_def Let_def exclusive_pop exclusive_push_new_Value
      split: option.splits)

lemma Func_obj_kept: "exclusive m \<Longrightarrow> kept (Func_obj f m)"
  by (cases f)
     (simp_all add: PackTop_obj_kept PackTopSameLevel_obj_kept UnpackTop_obj_kept PackTopX_obj_kept
        EmptyBranch_obj_kept EmptyElement_obj_kept CopyFromIndex_obj_kept
        ExtractColumnPack_obj_kept ExtractGroupedColumnPack_obj_kept Evaluator_Copy_obj_kept
        Duplicate_obj_kept lambda_pop_obj_kept DeepRemove_obj_kept Undot_obj_kept
        ConcatRow_obj_kept SplitRow_obj_kept Reverse_obj_kept)

lemma reachable_exclusive: "reachable m \<Longrightarrow> exclusive m"
proof (induction rule: reachable.induct)
  case start
  show ?case by (simp add: exclusive_def)
next
  case (literal m com)
  then show ?case by (simp add: exclusive_push_new_Value)
next
  case (returned m f m')
  then show ?case using Func_obj_kept [of m f] by simp
next
  case (thrown m f e m')
  then show ?case using Func_obj_kept [of m f] by simp
next
  case (thrown_std m f x m')
  then show ?case using Func_obj_kept [of m f] by simp
qed

lemma distinct_disjoint_elements: "distinct (objects_of st) \<Longrightarrow> disjoint_elements st"
proof (induction st)
  case Nil
  then show ?case by simp
next
  case (Cons x xs)
  then have "set (objects x) \<inter> set (objects_of xs) = {}" by simp
  then have "\<forall>y\<in>set xs. set (objects x) \<inter> set (objects y) = {}"
    using in_objects_of [of _ xs] by blast
  then show ?case using Cons by (simp add: list_all_iff)
qed

text \<open>
  C5. In every state the object stack of an evaluator can reach (from the empty stack, by
  pushes of literal leaves and by the registered operations, whether they return or
  throw), the elements of the stack are pairwise disjoint: no object is reachable from two
  of them. The proof keeps the stronger invariant \<^const>\<open>exclusive\<close> through every
  operation: \<^verbatim>\<open>UnpackTop\<close>, \<^verbatim>\<open>Copy\<close>, \<^verbatim>\<open>CopyFromIndex\<close>,
  \<^verbatim>\<open>Duplicate\<close> and the column extractions push clones, whose objects are all
  new; the packing operations and \<^verbatim>\<open>DeepRemove\<close> move the nodes they take;
  \<^verbatim>\<open>Undot\<close> and \<^verbatim>\<open>Reverse\<close> write inside the top object only.
\<close>

theorem stack_elements_never_share:
  "reachable m \<Longrightarrow> disjoint_elements (Stack m)"
  using reachable_exclusive [of m] by (simp add: exclusive_def distinct_disjoint_elements)

lemma ReadAs_int_2: "ReadAs_int ''2'' = Some 2"
  by (simp add: ReadAs_int_def isspace_def isdigit_def decimal_def digit_val_def saturate_def
      INT_MAX_def INT_MIN_def)

text \<open>C5, witness: the state after the tokens a, b, 2, ^tc, |, ^_t: the packed Branch
  and the two leaves unpacked from its clone.\<close>

theorem stack_elements_never_share_witness:
  "disjoint_elements
     [ValueObj 8 ''b'', ValueObj 7 ''a'', BranchObj 3 [ValueObj 0 ''a'', ValueObj 1 ''b'']]"
proof -
  let ?m0 = "\<lparr>Stack = [], Fresh = 0\<rparr>"
  let ?m1 = "\<lparr>Stack = [ValueObj 0 ''a''], Fresh = 1\<rparr>"
  let ?m2 = "\<lparr>Stack = [ValueObj 1 ''b'', ValueObj 0 ''a''], Fresh = 2\<rparr>"
  let ?m3 = "\<lparr>Stack = [ValueObj 2 ''2'', ValueObj 1 ''b'', ValueObj 0 ''a''], Fresh = 3\<rparr>"
  let ?m4 = "\<lparr>Stack = [BranchObj 3 [ValueObj 0 ''a'', ValueObj 1 ''b'']], Fresh = 4\<rparr>"
  let ?m5 = "\<lparr>Stack = [BranchObj 4 [ValueObj 5 ''a'', ValueObj 6 ''b''],
                        BranchObj 3 [ValueObj 0 ''a'', ValueObj 1 ''b'']], Fresh = 7\<rparr>"
  let ?m6 = "\<lparr>Stack = [ValueObj 8 ''b'', ValueObj 7 ''a'',
                        BranchObj 3 [ValueObj 0 ''a'', ValueObj 1 ''b'']], Fresh = 9\<rparr>"
  have "reachable ?m1"
    using reachable.literal [OF reachable.start, of "''a''"] by (simp add: push_new_Value_def eval_nat_numeral)
  then have "reachable ?m2"
    using reachable.literal [of ?m1 "''b''"] by (simp add: push_new_Value_def eval_nat_numeral)
  then have "reachable ?m3"
    using reachable.literal [of ?m2 "''2''"] by (simp add: push_new_Value_def eval_nat_numeral)
  moreover have "Func_obj Fn_PackTopX ?m3 = Returns ?m4"
    by (simp add: PackTopX_obj_def RequireValueTop_obj_def RequireTop_obj_def RequireValue_def
        is_value_def size_t_of_int_def ReadAs_int_2 pop_obj_def push_new_Branch_def)
  ultimately have "reachable ?m4"
    by (rule reachable.returned)
  moreover have "Func_obj Fn_Copy ?m4 = Returns ?m5"
    by (simp add: Evaluator_Copy_obj_def RequireTop_obj_def size_t_of_int_def push_Copy_def)
  ultimately have "reachable ?m5"
    by (rule reachable.returned)
  moreover have "Func_obj Fn_UnpackTop ?m5 = Returns ?m6"
    by (simp add: UnpackTop_obj_def RequireBranchTop_obj_def RequireTop_obj_def RequireBranch_def
        is_branch_def size_t_of_int_def pop_obj_def clear_Branches_def)
  ultimately have "reachable ?m6"
    by (rule reachable.returned)
  from stack_elements_never_share [OF this] show ?thesis by simp
qed

subsection \<open>The tree model is the object model with the identities dropped\<close>

lemma erase_outcome_simps [simp]:
  "erase_outcome ev (Returns m) = Returns (ev\<lparr>Data := map erase (Stack m)\<rparr>)"
  "erase_outcome ev (Throws e m) = Throws e (ev\<lparr>Data := map erase (Stack m)\<rparr>)"
  "erase_outcome ev (Throws_std x m) = Throws_std x (ev\<lparr>Data := map erase (Stack m)\<rparr>)"
  "erase_outcome ev Undefined = Undefined"
  by (simp_all add: erase_outcome_def)

lemma Stack_pop_obj [simp]: "Stack (pop_obj m) = tl (Stack m)" "Fresh (pop_obj m) = Fresh m"
  by (simp_all add: pop_obj_def)

lemma erase_Copy_obj:
  "erase (fst (Copy_obj x n)) = erase x"
  "map erase (fst (Copy_objs xs n)) = map erase xs"
  by (induction x n and xs n rule: Copy_obj_Copy_objs.induct) (auto split: prod.splits)

lemma Stack_push_Copy: "map erase (Stack (push_Copy x m)) = Copy (erase x) # map erase (Stack m)"
  using erase_Copy_obj(1) [of x "Fresh m"]
  by (cases "Copy_obj x (Fresh m)") (simp add: push_Copy_def Copy_id)

lemma Stack_push_new [simp]:
  "Stack (push_new_Value s m) = ValueObj (Fresh m) s # Stack m"
  "Stack (push_new_Branch cs m) = BranchObj (Fresh m) cs # Stack m"
  by (simp_all add: push_new_Value_def push_new_Branch_def)

lemma hd_erased: "RequireTop_obj 1 m = None \<Longrightarrow> hd (map erase (Stack m)) = erase (hd (Stack m))"
  using Require_obj_nonempty(1) [of m] by (auto simp: hd_map)

lemma Require_erased:
  "RequireTop sz (ev\<lparr>Data := map erase (Stack m)\<rparr>) = RequireTop_obj sz m"
  "RequireValueTop (ev\<lparr>Data := map erase (Stack m)\<rparr>) = RequireValueTop_obj m"
  "RequireBranchTop (ev\<lparr>Data := map erase (Stack m)\<rparr>) = RequireBranchTop_obj m"
  "RequireIntegerTop (ev\<lparr>Data := map erase (Stack m)\<rparr>) = RequireIntegerTop_obj m"
proof -
  show top: "RequireTop sz (ev\<lparr>Data := map erase (Stack m)\<rparr>) = RequireTop_obj sz m" for sz
    by (simp add: RequireTop_def RequireTop_obj_def)
  show "RequireValueTop (ev\<lparr>Data := map erase (Stack m)\<rparr>) = RequireValueTop_obj m"
    by (auto simp: top RequireValueTop_def RequireValueTop_obj_def hd_erased split: option.splits)
  show "RequireBranchTop (ev\<lparr>Data := map erase (Stack m)\<rparr>) = RequireBranchTop_obj m"
    by (auto simp: top RequireBranchTop_def RequireBranchTop_obj_def hd_erased split: option.splits)
  show "RequireIntegerTop (ev\<lparr>Data := map erase (Stack m)\<rparr>) = RequireIntegerTop_obj m"
    by (auto simp: top RequireIntegerTop_def RequireIntegerTop_obj_def hd_erased split: option.splits)
qed

lemmas Require_erased_1 = Require_erased [where m = "pop_obj m" for m, simplified]
lemmas Require_erased_2 =
  Require_erased [where m = "pop_obj (pop_obj m)" for m, simplified]

lemma top_Text:
  "RequireValueTop_obj m = None \<Longrightarrow> Stored (hd (map erase (Stack m))) = Text (hd (Stack m))"
  "RequireIntegerTop_obj m = None \<Longrightarrow> Stored (hd (map erase (Stack m))) = Text (hd (Stack m))"
  using Require_obj_nonempty(2,3) [of m] by auto

lemma top_Children:
  "RequireBranchTop_obj m = None \<Longrightarrow>
     Branches (hd (map erase (Stack m))) = map erase (Children (hd (Stack m)))"
  using Require_obj_nonempty(4) [of m] by auto

lemmas top_Text_1 = top_Text [where m = "pop_obj m" for m, simplified]
lemmas top_Children_1 = top_Children [where m = "pop_obj m" for m, simplified]
lemmas top_Children_2 = top_Children [where m = "pop_obj (pop_obj m)" for m, simplified]

lemmas erased_simps = Require_erased Require_erased_1 Require_erased_2 top_Text top_Text_1
  top_Children top_Children_1 top_Children_2 pop_def push_def map_tl [symmetric]

lemma PackTop_sim:
  "PackTop (ev\<lparr>Data := map erase (Stack m)\<rparr>) = erase_outcome ev (PackTop_obj m)"
  by (simp add: PackTop_def PackTop_obj_def Branch_taken_def erased_simps
      rev_map take_map drop_map)

lemma Unpack_sim:
  "map erase (fst (Unpack_obj bs stack n)) = fold (\<lambda>i s. Copy i # s) (map erase bs) (map erase stack)"
proof (induction bs stack n rule: Unpack_obj.induct)
  case (1 stack n)
  then show ?case by simp
next
  case (2 i bs stack n)
  obtain i' k where c: "Copy_obj i n = (i', k)" by force
  then have "erase i' = erase i" using erase_Copy_obj(1) [of i n] by simp
  then show ?case using 2 c by (simp add: Copy_id)
qed

lemma UnpackTop_sim:
  assumes "exclusive m"
  shows "UnpackTop (ev\<lparr>Data := map erase (Stack m)\<rparr>) = erase_outcome ev (UnpackTop_obj m)"
proof (cases "RequireBranchTop_obj m")
  case (Some e)
  then show ?thesis by (simp add: UnpackTop_def UnpackTop_obj_def erased_simps)
next
  case None
  then obtain a cs rest where st: "Stack m = BranchObj a cs # rest"
    using Require_obj_nonempty(4) by blast
  obtain stack n where u: "Unpack_obj cs rest (Fresh m) = (stack, n)" by force
  from Unpack_obj_fresh [OF u]
  have f: "Fresh m \<le> n" "mset (objects_of stack) = mset (objects_of rest) + mset [Fresh m..<n]"
    by auto
  have old: "distinct (a # objects_of cs @ objects_of rest)" "a < Fresh m"
    using assms st by (simp_all add: exclusive_def)
  have "a \<notin> set (objects_of rest) \<union> set [Fresh m..<n]" using old by auto
  then have "a \<notin> set (objects_of stack)"
    using f(2) by (metis set_mset_mset set_mset_union)
  then have same: "map (update_at a clear_Branches) stack = stack"
    by (rule update_stack_absent)
  have "map erase stack = fold (\<lambda>i s. Copy i # s) (map erase cs) (map erase rest)"
    using Unpack_sim [of cs rest "Fresh m"] u by simp
  then have "Unpack (hd (map erase (Stack m))) (map erase (tl (Stack m))) = map erase stack"
    using st by (simp add: Unpack_def)
  then have "UnpackTop (ev\<lparr>Data := map erase (Stack m)\<rparr>) = Returns (ev\<lparr>Data := map erase stack\<rparr>)"
    using None by (simp add: UnpackTop_def erased_simps)
  moreover have "UnpackTop_obj m = Returns (m\<lparr>Stack := stack, Fresh := n\<rparr>)"
    using None st u same by (simp add: UnpackTop_obj_def pop_obj_def)
  ultimately show ?thesis by simp
qed

lemma PackTopSameLevel_sim:
  "PackTopSameLevel (ev\<lparr>Data := map erase (Stack m)\<rparr>) = erase_outcome ev (PackTopSameLevel_obj m)"
  by (cases "Stack m")
     (simp_all add: PackTopSameLevel_def PackTopSameLevel_obj_def PackTopSameLevel_loop_eq
        PackTopSameLevel_loop_obj_eq erased_simps takeWhile_map dropWhile_map comp_def)

lemma PackTopX_sim:
  "PackTopX (ev\<lparr>Data := map erase (Stack m)\<rparr>) = erase_outcome ev (PackTopX_obj m)"
  by (auto simp: PackTopX_def PackTopX_obj_def Branch_taken_def Let_def erased_simps
      rev_map take_map drop_map split: option.splits)

lemma Empty_sim:
  "EmptyBranch (ev\<lparr>Data := map erase (Stack m)\<rparr>) = erase_outcome ev (EmptyBranch_obj m)"
  "EmptyElement (ev\<lparr>Data := map erase (Stack m)\<rparr>) = erase_outcome ev (EmptyElement_obj m)"
  by (simp_all add: EmptyBranch_def EmptyBranch_obj_def EmptyElement_def EmptyElement_obj_def
      erased_simps)

lemma CopyFromIndex_sim:
  "CopyFromIndex (ev\<lparr>Data := map erase (Stack m)\<rparr>) = erase_outcome ev (CopyFromIndex_obj m)"
  by (auto simp: CopyFromIndex_def CopyFromIndex_obj_def Let_def erased_simps
      Stack_push_Copy split: option.splits)

lemma Evaluator_Copy_sim:
  "Evaluator_Copy (ev\<lparr>Data := map erase (Stack m)\<rparr>) = erase_outcome ev (Evaluator_Copy_obj m)"
  by (auto simp: Evaluator_Copy_def Evaluator_Copy_obj_def hd_erased erased_simps Stack_push_Copy
      split: option.splits)

lemma lambda_pop_sim:
  "lambda_pop (ev\<lparr>Data := map erase (Stack m)\<rparr>) = erase_outcome ev (lambda_pop_obj m)"
  by (cases "Stack m") (simp_all add: lambda_pop_def lambda_pop_obj_def)

lemma Undot_sim:
  assumes "exclusive m"
  shows "Undot (ev\<lparr>Data := map erase (Stack m)\<rparr>) = erase_outcome ev (Undot_obj m)"
proof (cases "RequireValueTop_obj m")
  case (Some e)
  then show ?thesis by (simp add: Undot_def Undot_obj_def erased_simps)
next
  case None
  then obtain a s rest where st: "Stack m = ValueObj a s # rest"
    using Require_obj_nonempty(2) by blast
  have top: "hd (Stack m) = ValueObj a s" "tl (Stack m) = rest" using st by simp_all
  show ?thesis
    using None top update_top [OF assms st]
    by (simp add: Undot_def Undot_obj_def Let_def erased_simps split: list.splits)
qed

lemma Reverse_loop_map: "Reverse_loop i (map f v) = map f (Reverse_loop i v)"
proof (induction i v rule: Reverse_loop.induct)
  case (1 i v)
  show ?case
  proof (cases "i < length v div 2")
    case True
    then have "i < length v" "length v - 1 - i < length v" by auto
    then show ?thesis
      using "1.IH" [OF True] True
      by (simp add: Reverse_loop.simps [of i v] Reverse_loop.simps [of i "map f v"] map_update)
  next
    case False
    then show ?thesis
      by (simp add: Reverse_loop.simps [of i v] Reverse_loop.simps [of i "map f v"])
  qed
qed

lemma Reverse_sim:
  assumes "exclusive m"
  shows "Reverse (ev\<lparr>Data := map erase (Stack m)\<rparr>) = erase_outcome ev (Reverse_obj m)"
proof (cases "RequireTop_obj 1 m")
  case (Some e)
  then show ?thesis by (simp add: Reverse_def Reverse_obj_def erased_simps)
next
  case None
  then obtain t rest where st: "Stack m = t # rest"
    using Require_obj_nonempty(1) by blast
  have top: "hd (Stack m) = t" "tl (Stack m) = rest" using st by simp_all
  show ?thesis
    using None top update_top [OF assms st]
    by (cases t) (simp_all add: Reverse_def Reverse_obj_def Let_def erased_simps hd_erased
        is_value_def Reverse_loop_map)
qed

lemma Duplicate_loop_sim:
  "map_option (\<lambda>m'. map erase (Stack m')) (Duplicate_loop_obj i c m) =
     Duplicate_loop i c (map erase (Stack m))"
proof (induction i c m rule: Duplicate_loop_obj.induct)
  case (1 i c m)
  show ?case
  proof (cases "i < c")
    case True
    show ?thesis
    proof (cases "Stack m")
      case Nil
      then show ?thesis
        using True by (simp add: Duplicate_loop_obj.simps [of i c m] Duplicate_loop.simps [of i c "[]"])
    next
      case (Cons t rest)
      then show ?thesis
        using True "1.IH" [OF True Cons] Stack_push_Copy [of t m]
        by (simp add: Duplicate_loop_obj.simps [of i c m]
            Duplicate_loop.simps [of i c "erase t # map erase rest"])
    qed
  next
    case False
    then show ?thesis
      by (simp add: Duplicate_loop_obj.simps [of i c m]
          Duplicate_loop.simps [of i c "map erase (Stack m)"])
  qed
qed

lemma Duplicate_sim:
  "Duplicate (ev\<lparr>Data := map erase (Stack m)\<rparr>) = erase_outcome ev (Duplicate_obj m)"
proof -
  have "Duplicate_loop 1 c (map erase (tl (Stack m))) =
          map_option (\<lambda>m'. map erase (Stack m')) (Duplicate_loop_obj 1 c (pop_obj m))" for c
    using Duplicate_loop_sim [of 1 c "pop_obj m"] by simp
  then show ?thesis
    by (auto simp: Duplicate_def Duplicate_obj_def erased_simps split: option.splits)
qed

lemma move_top_map:
  "move_top k (map f src) (map f dst) =
     map_option (\<lambda>(s, d). (map f s, map f d)) (move_top k src dst)"
proof (induction k src dst rule: move_top.induct)
  case (1 src dst)
  then show ?case by simp
next
  case (2 n dst)
  then show ?case by simp
next
  case (3 n t src dst)
  then show ?case using "3.IH" by simp
qed

lemma DeepRemove_sim:
  "DeepRemove (ev\<lparr>Data := map erase (Stack m)\<rparr>) = erase_outcome ev (DeepRemove_obj m)"
proof -
  have 1: "move_top k (map erase (tl (Stack m))) [] =
          map_option (\<lambda>(s, d). (map erase s, map erase d)) (move_top k (tl (Stack m)) [])" for k
    using move_top_map [of k erase "tl (Stack m)" "[]"] by simp
  show ?thesis
    by (auto simp: DeepRemove_def DeepRemove_obj_def Let_def erased_simps 1 move_top_map
        split: option.splits list.splits)
qed

lemma ConcatRow_sim:
  "ConcatRow (ev\<lparr>Data := map erase (Stack m)\<rparr>) = erase_outcome ev (ConcatRow_obj m)"
  by (auto simp: ConcatRow_def ConcatRow_obj_def Let_def erased_simps split: option.splits)

lemma new_Values_erase: "map erase (new_Values ss n) = map Value ss"
proof (induction ss arbitrary: n)
  case Nil
  then show ?case by (simp add: new_Values_def)
next
  case (Cons s ss)
  have e: "[n..<n + length (s # ss)] = n # [Suc n..<Suc n + length ss]"
    by (rule trans [OF upt_conv_Cons]) simp_all
  have "new_Values (s # ss) n = ValueObj n s # new_Values ss (Suc n)"
    unfolding new_Values_def e by simp
  then show ?case using Cons [of "Suc n"] by simp
qed

lemma SplitRow_sim:
  "SplitRow (ev\<lparr>Data := map erase (Stack m)\<rparr>) = erase_outcome ev (SplitRow_obj m)"
proof -
  have "map Value (map Stored r) = r"
    if "SplitRow_loop v split 0 (find_or_size v split 0) [] = Some (Returns r)" for v split r
    using SplitRow_loop_leaves [OF that] by (simp add: comp_def)
  then show ?thesis
    by (auto simp: SplitRow_def SplitRow_obj_def Let_def erased_simps new_Values_erase
        split: option.splits outcome.splits)
qed

lemma Branches_erase: "is_branch (erase b) \<Longrightarrow> Branches (erase b) = map erase (Children b)"
  by (cases b) (simp_all add: is_branch_def)

lemma ExtractColumnPack_loop_sim:
  "list_all (\<lambda>b. is_branch (erase b)) br \<Longrightarrow>
     map_option (\<lambda>r. map erase (fst r)) (ExtractColumnPack_loop_obj index depth br cp nb n) =
       ExtractColumnPack_loop index depth (map erase br) cp (map erase nb)"
proof (induction index depth br cp nb n rule: ExtractColumnPack_loop_obj.induct)
  case (1 index depth cp nbranch n)
  then show ?case
    by (simp add: ExtractColumnPack_loop_obj.simps ExtractColumnPack_loop.simps)
next
  case (2 index depth b br nbranch n)
  then show ?case
    by (simp add: ExtractColumnPack_loop_obj.simps ExtractColumnPack_loop.simps)
next
  case (3 index depth b br c cp nbranch n)
  have b: "is_branch (erase b)" and br: "list_all (\<lambda>b. is_branch (erase b)) br" using "3.prems" by simp_all
  note bs = Branches_erase [OF b]
  note obj = ExtractColumnPack_loop_obj.simps(3) [of index depth b br c cp nbranch n]
  note val = ExtractColumnPack_loop.simps(3)
    [of index depth "erase b" "map erase br" c cp "map erase nbranch"]
  show ?case
  proof (cases "length (Children b) \<le> c")
    case True
    then show ?thesis using "3.IH"(1) [OF True br] by (simp add: obj val bs)
  next
    case inside: False
    show ?thesis
    proof (cases "length (b # br) = size_t_of_int depth")
      case at: True
      show ?thesis
      proof (cases "size_t_of_int index < length (Children b)")
        case has: True
        obtain x k where c: "Copy_obj (Children b ! size_t_of_int index) n = (x, k)" by force
        then have x: "erase x = erase (Children b ! size_t_of_int index)"
          using erase_Copy_obj(1) [of "Children b ! size_t_of_int index" n] by simp
        show ?thesis
          using "3.IH"(2) [OF inside at has c [symmetric] br] inside at has c x
          by (simp add: obj val bs Copy_id)
      next
        case False
        then show ?thesis
          using "3.IH"(3) [OF inside at False br] inside at by (simp add: obj val bs)
      qed
    next
      case deeper: False
      show ?thesis
      proof (cases "is_branch (erase (Children b ! c))")
        case True
        then have "list_all (\<lambda>b. is_branch (erase b)) (Children b ! c # b # br)"
          using b br by simp
        from "3.IH"(4) [OF inside deeper True this] show ?thesis
          using inside deeper True by (simp add: obj val bs)
      next
        case False
        from "3.IH"(5) [OF inside deeper False "3.prems"] show ?thesis
          using inside deeper False by (simp add: obj val bs)
      qed
    qed
  qed
qed

lemma top_is_BranchObj:
  "RequireBranchTop_obj m = None \<Longrightarrow> is_branch (erase (hd (Stack m)))"
  using Require_obj_nonempty(4) [of m] by (auto simp: is_branch_def)

lemma ExtractColumnPack_loop_sim_root:
  assumes "RequireBranchTop_obj (pop_obj (pop_obj m)) = None"
  shows "ExtractColumnPack_loop index depth [hd (map erase (tl (tl (Stack m))))] [0] [] =
      map_option (\<lambda>r. map erase (fst r))
        (ExtractColumnPack_loop_obj index depth [hd (tl (tl (Stack m)))] [0] [] n)"
proof -
  have "is_branch (erase (hd (tl (tl (Stack m)))))" using top_is_BranchObj [OF assms] by simp
  moreover have "hd (map erase (tl (tl (Stack m)))) = erase (hd (tl (tl (Stack m))))"
    using Require_obj_nonempty(4) [OF assms] by auto
  ultimately show ?thesis
    using ExtractColumnPack_loop_sim [of "[hd (tl (tl (Stack m)))]" index depth "[0]" "[]" n]
    by simp
qed

lemma ExtractColumnPack_sim:
  "ExtractColumnPack (ev\<lparr>Data := map erase (Stack m)\<rparr>) =
     erase_outcome ev (ExtractColumnPack_obj m)"
proof (cases "RequireBranchTop_obj (pop_obj (pop_obj m))")
  case (Some e)
  then show ?thesis
    by (auto simp: ExtractColumnPack_def ExtractColumnPack_obj_def Let_def erased_simps
        split: option.splits)
next
  case None
  note loop = ExtractColumnPack_loop_sim_root [OF None, where n = "Suc (Fresh m)"]
  show ?thesis
    using None
    by (auto simp: ExtractColumnPack_def ExtractColumnPack_obj_def Let_def erased_simps loop
        split: option.splits)
qed

lemma node_at_erase: "at_obj p t = Some n \<Longrightarrow> node_at p (erase t) = erase n"
proof (induction p arbitrary: t)
  case Nil
  then show ?case by simp
next
  case (Cons i p)
  then show ?case by (cases t) (auto split: if_splits)
qed

lemma in_objects_nth:
  assumes "i < length cs"
  shows "set (objects (cs ! i)) \<subseteq> set (objects_of cs)"
proof -
  have "cs ! i \<in> set cs" using assms by simp
  then show ?thesis using in_objects_of [of _ cs] by blast
qed

lemma at_obj_in_objects: "at_obj p t = Some n \<Longrightarrow> Address n \<in> set (objects t)"
proof (induction p arbitrary: t)
  case Nil
  then show ?case by (simp add: Address_in_objects)
next
  case (Cons i p)
  then show ?case
    using in_objects_nth by (cases t) (fastforce split: if_splits)+
qed

lemma distinct_objects_nth:
  "distinct (objects_of cs) \<Longrightarrow> i < length cs \<Longrightarrow> distinct (objects (cs ! i))"
proof (induction cs arbitrary: i)
  case Nil
  then show ?case by simp
next
  case (Cons c cs)
  then show ?case by (cases i) auto
qed

lemma only_child_holds:
  "distinct (objects_of cs) \<Longrightarrow> i < length cs \<Longrightarrow> a \<in> set (objects (cs ! i)) \<Longrightarrow>
     map (update_at a f) cs = cs[i := update_at a f (cs ! i)]"
proof (induction cs arbitrary: i)
  case Nil
  then show ?case by simp
next
  case (Cons c cs)
  show ?case
  proof (cases i)
    case 0
    then have "a \<notin> set (objects_of cs)" using Cons.prems by auto
    then show ?thesis using 0 by (simp add: update_stack_absent)
  next
    case (Suc j)
    then have "a \<in> set (objects_of cs)" using Cons.prems in_objects_nth [of j cs] by auto
    then have "a \<notin> set (objects c)" using Cons.prems(1) by auto
    then show ?thesis using Suc Cons by (simp add: update_at_absent)
  qed
qed

lemma push_back_obj_Branch:
  "push_back_obj a x (BranchObj b cs) =
     (if a = b then BranchObj b (cs @ [x]) else BranchObj b (map (push_back_obj a x) cs))"
  by (simp add: push_back_obj_def)

lemma push_back_obj_sim:
  "distinct (objects t) \<Longrightarrow> points_to t p a \<Longrightarrow>
     erase (push_back_obj a x t) = push_back_at p (erase x) (erase t)"
proof (induction p arbitrary: t)
  case Nil
  then show ?case by (auto simp: points_to_def push_back_obj_Branch)
next
  case (Cons i p)
  from Cons.prems(2) obtain b cs where t: "t = BranchObj b cs" and i: "i < length cs"
    and sub: "points_to (cs ! i) p a"
    by (cases t) (auto simp: points_to_def split: if_splits)
  have d: "distinct (objects_of cs)" "b \<notin> set (objects_of cs)" using Cons.prems(1) t by auto
  have a: "a \<in> set (objects (cs ! i))"
    using sub at_obj_in_objects by (fastforce simp: points_to_def)
  then have "a \<noteq> b" using d(2) in_objects_nth [OF i] by auto
  moreover have "map (push_back_obj a x) cs = cs[i := push_back_obj a x (cs ! i)]"
    unfolding push_back_obj_def by (rule only_child_holds [OF d(1) i a])
  moreover have "erase (push_back_obj a x (cs ! i)) = push_back_at p (erase x) (erase (cs ! i))"
    using Cons.IH [OF distinct_objects_nth [OF d(1) i] sub] .
  ultimately show ?case using t i by (simp add: push_back_obj_Branch map_update)
qed

lemma push_back_obj_keeps:
  "points_to t q a' \<Longrightarrow> points_to (push_back_obj a x t) q a'"
proof (induction q arbitrary: t)
  case Nil
  then show ?case by (auto simp: points_to_def push_back_obj_Branch)
next
  case (Cons i q)
  from Cons.prems obtain b cs where t: "t = BranchObj b cs" and i: "i < length cs"
    and sub: "points_to (cs ! i) q a'"
    by (cases t) (auto simp: points_to_def split: if_splits)
  show ?case
  proof (cases "a = b")
    case True
    then show ?thesis
      using sub t i by (simp add: points_to_def push_back_obj_Branch nth_append)
  next
    case False
    then show ?thesis
      using Cons.IH [OF sub] t i by (simp add: points_to_def push_back_obj_Branch)
  qed
qed

lemma push_back_obj_new:
  "distinct (objects t) \<Longrightarrow> at_obj p t = Some (BranchObj a cs) \<Longrightarrow>
     at_obj (p @ [length cs]) (push_back_obj a x t) = Some x"
proof (induction p arbitrary: t)
  case Nil
  then show ?case by (cases x) (auto simp: push_back_obj_Branch)
next
  case (Cons i p)
  from Cons.prems(2) obtain b bs where t: "t = BranchObj b bs" and i: "i < length bs"
    and sub: "at_obj p (bs ! i) = Some (BranchObj a cs)"
    by (cases t) (auto split: if_splits)
  have d: "distinct (objects_of bs)" "b \<notin> set (objects_of bs)" using Cons.prems(1) t by auto
  have a: "a \<in> set (objects (bs ! i))" using at_obj_in_objects [OF sub] by simp
  then have "a \<noteq> b" using d(2) in_objects_nth [OF i] by auto
  moreover have "at_obj (p @ [length cs]) (push_back_obj a x (bs ! i)) = Some x"
    using Cons.IH [OF distinct_objects_nth [OF d(1) i] sub] .
  ultimately show ?case using t i by (simp add: push_back_obj_Branch)
qed

lemma ExtractGroupedColumnPack_loop_sim:
  "list_all (\<lambda>b. is_branch (erase b)) br \<Longrightarrow>
   distinct (objects nbranch) \<Longrightarrow> \<forall>a\<in>set (objects nbranch). a < n \<Longrightarrow>
   list_all2 (points_to nbranch) paths nbr \<Longrightarrow>
     map_option (\<lambda>r. erase (fst r))
        (ExtractGroupedColumnPack_loop_obj index depth br cp nbr nbranch n) =
       ExtractGroupedColumnPack_loop index depth (map erase br) cp paths (erase nbranch)"
proof (induction index depth br cp nbr nbranch n arbitrary: paths
    rule: ExtractGroupedColumnPack_loop_obj.induct)
  case (1 index depth cp nbr nbranch n)
  then show ?case
    by (simp add: ExtractGroupedColumnPack_loop_obj.simps ExtractGroupedColumnPack_loop.simps)
next
  case (2 index depth b br nbr nbranch n)
  then show ?case
    by (simp add: ExtractGroupedColumnPack_loop_obj.simps ExtractGroupedColumnPack_loop.simps)
next
  case (3 index depth b br c cp nbranch n)
  then show ?case
    by (simp add: ExtractGroupedColumnPack_loop_obj.simps ExtractGroupedColumnPack_loop.simps)
next
  case (4 index depth b br c cp p nbr nbranch n)
  from "4.prems"(4) obtain path paths' where paths: "paths = path # paths'"
    and here: "points_to nbranch path p" and rest: "list_all2 (points_to nbranch) paths' nbr"
    by (cases paths) auto
  have b: "is_branch (erase b)" and br: "list_all (\<lambda>b. is_branch (erase b)) br"
    using "4.prems"(1) by simp_all
  note d = "4.prems"(2) and old = "4.prems"(3)
  note bs = Branches_erase [OF b]
  note obj = ExtractGroupedColumnPack_loop_obj.simps(4) [of index depth b br c cp p nbr nbranch n]
  note val = ExtractGroupedColumnPack_loop.simps(4)
    [of index depth "erase b" "map erase br" c cp path paths' "erase nbranch"]
  have grown: "distinct (objects (push_back_obj p x nbranch)) \<and>
      (\<forall>a\<in>set (objects (push_back_obj p x nbranch)). a < k) \<and>
      list_all2 (points_to (push_back_obj p x nbranch)) paths' nbr \<and>
      points_to (push_back_obj p x nbranch) path p \<and>
      erase (push_back_obj p x nbranch) = push_back_at path (erase x) (erase nbranch)"
    if x: "objects x = [n..<k]" and nk: "n < k" for x k
  proof -
    from push_back_obj_grow [OF d old x, of p]
    have "distinct (objects (push_back_obj p x nbranch))"
      "\<forall>a\<in>set (objects (push_back_obj p x nbranch)). a < k"
      using nk by auto
    moreover have "list_all2 (points_to (push_back_obj p x nbranch)) paths' nbr"
      using rest by (rule list_all2_mono) (rule push_back_obj_keeps)
    moreover have "points_to (push_back_obj p x nbranch) path p"
      using here by (rule push_back_obj_keeps)
    moreover have "erase (push_back_obj p x nbranch) = push_back_at path (erase x) (erase nbranch)"
      using d here by (rule push_back_obj_sim)
    ultimately show ?thesis by simp
  qed
  show ?case
  proof (cases "length (Children b) \<le> c")
    case True
    then show ?thesis
      using "4.IH"(1) [OF True br d old rest] by (simp add: obj val bs paths)
  next
    case inside: False
    show ?thesis
    proof (cases "length (b # br) = size_t_of_int depth")
      case at: True
      show ?thesis
      proof (cases "size_t_of_int index < length (Children b)")
        case has: True
        obtain x k where c: "Copy_obj (Children b ! size_t_of_int index) n = (x, k)" by force
        then have x: "erase x = erase (Children b ! size_t_of_int index)"
          using erase_Copy_obj(1) [of "Children b ! size_t_of_int index" n] by simp
        from Copy_obj_fresh(1) [OF c] have f: "n < k" "objects x = [n..<k]" by auto
        from grown [OF f(2) f(1)]
        have g: "distinct (objects (push_back_obj p x nbranch))"
          "\<forall>a\<in>set (objects (push_back_obj p x nbranch)). a < k"
          "list_all2 (points_to (push_back_obj p x nbranch)) paths' nbr"
          "erase (push_back_obj p x nbranch) = push_back_at path (erase x) (erase nbranch)"
          by auto
        show ?thesis
          using "4.IH"(2) [OF inside at has c [symmetric] br g(1,2,3)] inside at has c x g(4)
          by (simp add: obj val bs paths Copy_id)
      next
        case False
        then show ?thesis
          using "4.IH"(3) [OF inside at False br d old rest] inside at
          by (simp add: obj val bs paths)
      qed
    next
      case deeper: False
      show ?thesis
      proof (cases "is_branch (erase (Children b ! c))")
        case True
        let ?x = "BranchObj n []"
        let ?nb = "push_back_obj p ?x nbranch"
        have frames: "list_all (\<lambda>b. is_branch (erase b)) (Children b ! c # b # br)"
          using True b br by simp
        have x: "objects ?x = [n..<Suc n]" by simp
        from grown [OF x]
        have g: "distinct (objects ?nb)" "\<forall>a\<in>set (objects ?nb). a < Suc n"
          "list_all2 (points_to ?nb) paths' nbr" "points_to ?nb path p"
          "erase ?nb = push_back_at path (Branch []) (erase nbranch)"
          by auto
        from here obtain cs where cs: "at_obj path nbranch = Some (BranchObj p cs)"
          by (auto simp: points_to_def)
        have len: "length (Branches (node_at path (erase nbranch))) = length cs"
          using node_at_erase [OF cs] by simp
        have "at_obj (path @ [length cs]) ?nb = Some ?x"
          using d cs by (rule push_back_obj_new)
        then have new: "points_to ?nb (path @ [length cs]) n"
          by (simp add: points_to_def)
        have all: "list_all2 (points_to ?nb) ((path @ [length cs]) # path # paths') (n # p # nbr)"
          using new g(3,4) by simp
        show ?thesis
          using "4.IH"(4) [OF inside deeper True frames g(1,2) all] inside deeper True g(5) len
          by (simp add: obj val bs paths)
      next
        case False
        show ?thesis
          using "4.IH"(5) [OF inside deeper False "4.prems"(1) d old "4.prems"(4)]
            inside deeper False
          by (simp add: obj val bs paths)
      qed
    qed
  qed
qed

lemma ExtractGroupedColumnPack_loop_sim_root:
  assumes "RequireBranchTop_obj (pop_obj (pop_obj m)) = None"
  shows "ExtractGroupedColumnPack_loop index depth [hd (map erase (tl (tl (Stack m))))] [0] [[]]
          (Branch []) =
      map_option (\<lambda>r. erase (fst r))
        (ExtractGroupedColumnPack_loop_obj index depth [hd (tl (tl (Stack m)))] [0] [n]
           (BranchObj n []) (Suc n))"
proof -
  have "is_branch (erase (hd (tl (tl (Stack m)))))" using top_is_BranchObj [OF assms] by simp
  moreover have "hd (map erase (tl (tl (Stack m)))) = erase (hd (tl (tl (Stack m))))"
    using Require_obj_nonempty(4) [OF assms] by auto
  moreover have "list_all2 (points_to (BranchObj n [])) [[]] [n]"
    by (simp add: points_to_def)
  ultimately show ?thesis
    using ExtractGroupedColumnPack_loop_sim
      [of "[hd (tl (tl (Stack m)))]" "BranchObj n []" "Suc n" "[[]]" "[n]" index depth "[0]"]
    by simp
qed

lemma ExtractGroupedColumnPack_sim:
  "ExtractGroupedColumnPack (ev\<lparr>Data := map erase (Stack m)\<rparr>) =
     erase_outcome ev (ExtractGroupedColumnPack_obj m)"
proof (cases "RequireBranchTop_obj (pop_obj (pop_obj m))")
  case (Some e)
  then show ?thesis
    by (auto simp: ExtractGroupedColumnPack_def ExtractGroupedColumnPack_obj_def Let_def
        erased_simps split: option.splits)
next
  case None
  note loop = ExtractGroupedColumnPack_loop_sim_root [OF None, where n = "Fresh m"]
  show ?thesis
    using None
    by (auto simp: ExtractGroupedColumnPack_def ExtractGroupedColumnPack_obj_def Let_def
        erased_simps loop split: option.splits)
qed

text \<open>
  The two models agree. On a stack with exclusive ownership, every registered operation
  does to the trees of the objects what the tree model says: the tree model of the
  evaluator is the object model with the identities dropped. (The in-place writes of
  \<^verbatim>\<open>Undot\<close>, \<^verbatim>\<open>Reverse\<close> and \<^verbatim>\<open>Unpack\<close> reach one stack element only
  because no object is shared.)
\<close>

theorem Func_erases:
  assumes "exclusive m"
  shows "Func f (ev\<lparr>Data := map erase (Stack m)\<rparr>) = erase_outcome ev (Func_obj f m)"
  using assms
  by (cases f)
     (simp_all add: PackTop_sim PackTopSameLevel_sim UnpackTop_sim PackTopX_sim Empty_sim
        CopyFromIndex_sim ExtractColumnPack_sim ExtractGroupedColumnPack_sim Evaluator_Copy_sim
        Duplicate_sim lambda_pop_sim DeepRemove_sim Undot_sim ConcatRow_sim SplitRow_sim
        Reverse_sim)

end
